theory Spec2Isabelle
  imports Complex_Main
begin

section \<open>Python values, errors and loops\<close>

text \<open>
  The module under verification is \<^verbatim>\<open>trace_sankey_helpers.py\<close>. Every exception the
  code can raise is a value of \<open>py_error\<close>; a function that can raise returns
  \<open>py_error + 'a\<close>, with \<open>Inl\<close> for the exception.
\<close>

datatype py_error =
    IndexError
  | KeyError
  | TypeError
  | ValueError
  | NameError
  | KeyboardInterrupt

text \<open>
  \<^verbatim>\<open>xs[i]\<close> for a non-negative index: out of range raises \<^verbatim>\<open>IndexError\<close>, for a
  Python list and for a numpy array alike.
\<close>

definition getitem :: "'a list \<Rightarrow> nat \<Rightarrow> py_error + 'a" where
  "getitem xs i = (if i < length xs then Inr (xs ! i) else Inl IndexError)"

text \<open>
  \<^verbatim>\<open>F[i, j]\<close> on a two-dimensional array, held as the list of its rows.
\<close>

definition getitem2 :: "'a list list \<Rightarrow> nat \<Rightarrow> nat \<Rightarrow> py_error + 'a" where
  "getitem2 F i j = (case getitem F i of Inl e \<Rightarrow> Inl e | Inr row \<Rightarrow> getitem row j)"

text \<open>
  \<^verbatim>\<open>for i in it: body\<close>, where the body updates the loop's state (here: the list
  being appended to). An exception in the body leaves the loop.
\<close>

fun for_loop :: "'i list \<Rightarrow> ('i \<Rightarrow> 's \<Rightarrow> py_error + 's) \<Rightarrow> 's \<Rightarrow> py_error + 's" where
  "for_loop [] body s = Inr s"
| "for_loop (i # is) body s =
     (case body i s of Inl e \<Rightarrow> Inl e | Inr s' \<Rightarrow> for_loop is body s')"

text \<open>\<^verbatim>\<open>range(n)\<close>.\<close>

definition py_range :: "nat \<Rightarrow> nat list" where
  "py_range n = [0..<n]"

section \<open>Data model\<close>

text \<open>
  The process registry is an ordered mapping from process id to metadata: an association
  list, whose key order is the iteration order of \<^verbatim>\<open>processes.keys()\<close>.
\<close>

type_synonym 'm registry = "(string \<times> 'm) list"

definition keys :: "'m registry \<Rightarrow> string list" where
  "keys processes = map fst processes"

text \<open>
  The tuples appended to \<^verbatim>\<open>flows\<close> and \<^verbatim>\<open>rows\<close>:
  \<^verbatim>\<open>(source, target, material, value)\<close> and
  \<^verbatim>\<open>(source, target, material, sample, value)\<close>.
  The value type is any type with a zero and an order: the code only ever compares
  a value with zero (a comparison that is false on a NaN, as any ordering may be).
\<close>

type_synonym 'a edge = "string \<times> string \<times> string \<times> 'a"
type_synonym 'a sample_edge = "string \<times> string \<times> string \<times> nat \<times> 'a"

text \<open>A \<^verbatim>\<open>pandas.DataFrame\<close> built by \<^verbatim>\<open>from_records\<close>: column names and rows.\<close>

record 'r dataframe =
  columns :: "string list"
  records :: "'r list"

definition from_records :: "'r list \<Rightarrow> string list \<Rightarrow> 'r dataframe" where
  "from_records rs cols = \<lparr>columns = cols, records = rs\<rparr>"

section \<open>Matrix to edge list: \<^verbatim>\<open>inputs_flows_as_dataframe\<close>\<close>

text \<open>
  The body of the first loop:
  \<^verbatim>\<open>if I[i] > 0: flows.append(('inputs', possible_inputs[i], '?', I[i]))\<close>
\<close>

definition inputs_body ::
  "string list \<Rightarrow> ('a::{zero,ord}) list \<Rightarrow> nat \<Rightarrow> 'a edge list \<Rightarrow> py_error + 'a edge list" where
  "inputs_body possible_inputs I i flows =
     (case getitem I i of Inl e \<Rightarrow> Inl e
      | Inr v \<Rightarrow>
          if 0 < v then
            (case getitem possible_inputs i of Inl e \<Rightarrow> Inl e
             | Inr nm \<Rightarrow> Inr (flows @ [(''inputs'', nm, ''?'', v)]))
          else Inr flows)"

text \<open>
  The body of the inner loop over the matrix:
  \<^verbatim>\<open>if F[i, j] > 0: flows.append((process_ids[i], process_ids[j], '?', F[i, j]))\<close>
\<close>

definition cell_body ::
  "string list \<Rightarrow> ('a::{zero,ord}) list list \<Rightarrow> nat \<Rightarrow> nat \<Rightarrow> 'a edge list
     \<Rightarrow> py_error + 'a edge list" where
  "cell_body process_ids F i j flows =
     (case getitem2 F i j of Inl e \<Rightarrow> Inl e
      | Inr v \<Rightarrow>
          if 0 < v then
            (case getitem process_ids i of Inl e \<Rightarrow> Inl e
             | Inr src \<Rightarrow>
                 (case getitem process_ids j of Inl e \<Rightarrow> Inl e
                  | Inr tgt \<Rightarrow> Inr (flows @ [(src, tgt, ''?'', v)])))
          else Inr flows)"

definition inputs_flows_as_dataframe ::
  "'m registry \<Rightarrow> string list \<Rightarrow> ('a::{zero,ord}) list \<Rightarrow> 'a list list
     \<Rightarrow> py_error + 'a edge dataframe" where
  "inputs_flows_as_dataframe processes possible_inputs I F =
     (let Np = length F in
      case for_loop (py_range (length I)) (inputs_body possible_inputs I) [] of
        Inl e \<Rightarrow> Inl e
      | Inr flows \<Rightarrow>
          let process_ids = keys processes in
          (case for_loop (py_range Np)
                  (\<lambda>i. for_loop (py_range Np) (cell_body process_ids F i)) flows of
             Inl e \<Rightarrow> Inl e
           | Inr flows' \<Rightarrow>
               Inr (from_records flows' [''source'', ''target'', ''material'', ''value''])))"

text \<open>
  The same output in the words of the specification: one record per positive input
  entry in increasing index, then one record per positive matrix cell in row-major
  order, with the placeholder material.
\<close>

definition spec_input_edges :: "string list \<Rightarrow> ('a::{zero,ord}) list \<Rightarrow> 'a edge list" where
  "spec_input_edges possible_inputs I =
     [(''inputs'', possible_inputs ! i, ''?'', I ! i). i \<leftarrow> [0..<length I], 0 < I ! i]"

definition spec_matrix_edges :: "string list \<Rightarrow> ('a::{zero,ord}) list list \<Rightarrow> 'a edge list" where
  "spec_matrix_edges process_ids F =
     [(process_ids ! i, process_ids ! j, ''?'', F ! i ! j).
        i \<leftarrow> [0..<length F], j \<leftarrow> [0..<length F], 0 < F ! i ! j]"

text \<open>A matrix is square when each of its rows is as long as the list of rows.\<close>

definition square :: "'a list list \<Rightarrow> bool" where
  "square F = list_all (\<lambda>row. length row = length F) F"

definition edge_value :: "'a edge \<Rightarrow> 'a" where
  "edge_value r = snd (snd (snd r))"

text \<open>The number of strictly positive cells of a matrix.\<close>

definition positive_cells :: "('a::{zero,ord}) list list \<Rightarrow> nat" where
  "positive_cells F = sum_list (map (\<lambda>row. length (filter (\<lambda>v. 0 < v) row)) F)"

section \<open>Trace to edge list: \<^verbatim>\<open>flows_from_trace\<close>\<close>

text \<open>
  The trace is the sampling library's \<^verbatim>\<open>MultiTrace\<close>: its chains in order, each
  holding for the variables \<^verbatim>\<open>inputs\<close> and \<^verbatim>\<open>F\<close> one array per sample.
\<close>

record 'a chain =
  var_inputs :: "'a list list"
  var_F :: "'a list list list"

type_synonym 'a trace = "'a chain list"

text \<open>
  The Python slice \<^verbatim>\<open>xs[start::step]\<close>: a zero step raises \<^verbatim>\<open>ValueError\<close>, a
  negative start counts from the end, a negative step walks backwards. The start is
  clipped and the items counted as the interpreter does.
\<close>

definition slice_indices :: "nat \<Rightarrow> int \<Rightarrow> int \<Rightarrow> py_error + nat list" where
  "slice_indices n start step =
     (if step = 0 then Inl ValueError
      else if 0 < step then
        (let s = (if start < 0 then max (start + int n) 0 else min start (int n));
             cnt = (if s < int n then nat ((int n - s - 1) div step) + 1 else 0)
         in Inr (map (\<lambda>k. nat (s + int k * step)) [0..<cnt]))
      else
        (let s = (if start < 0 then max (start + int n) (- 1) else min start (int n - 1));
             cnt = (if - 1 < s then nat (s div (- step)) + 1 else 0)
         in Inr (map (\<lambda>k. nat (s + int k * step)) [0..<cnt])))"

definition getslice :: "'a list \<Rightarrow> int \<Rightarrow> int \<Rightarrow> py_error + 'a list" where
  "getslice xs start step =
     (case slice_indices (length xs) start step of
        Inl e \<Rightarrow> Inl e
      | Inr idx \<Rightarrow> Inr (map (\<lambda>i. xs ! i) idx))"

text \<open>
  Indexing the trace as \<^verbatim>\<open>trace[name, nburn::thin]\<close> is the library's
  \<^verbatim>\<open>get_values(name, burn=nburn, thin=thin)\<close>: the samples of every chain are sliced
  with \<^verbatim>\<open>[burn::thin]\<close>, chain by chain, and the slices are joined by
  \<^verbatim>\<open>np.concatenate\<close>, which raises \<^verbatim>\<open>ValueError\<close> when given no array.
\<close>

fun chain_slices :: "('c \<Rightarrow> 'b list) \<Rightarrow> 'c list \<Rightarrow> int \<Rightarrow> int \<Rightarrow> py_error + 'b list list" where
  "chain_slices var [] burn thin = Inr []"
| "chain_slices var (c # cs) burn thin =
     (case getslice (var c) burn thin of
        Inl e \<Rightarrow> Inl e
      | Inr ys \<Rightarrow>
          (case chain_slices var cs burn thin of
             Inl e \<Rightarrow> Inl e
           | Inr yss \<Rightarrow> Inr (ys # yss)))"

definition np_concatenate :: "'b list list \<Rightarrow> py_error + 'b list" where
  "np_concatenate arrays = (if arrays = [] then Inl ValueError else Inr (concat arrays))"

definition get_values :: "('c \<Rightarrow> 'b list) \<Rightarrow> 'c list \<Rightarrow> int \<Rightarrow> int \<Rightarrow> py_error + 'b list" where
  "get_values var trace burn thin =
     (case chain_slices var trace burn thin of
        Inl e \<Rightarrow> Inl e
      | Inr results \<Rightarrow> np_concatenate results)"

text \<open>
  The same slice in the words of the language reference: the items whose index is the
  start plus a multiple of the step, from the start (taken from the end when negative,
  and clipped to the sequence) towards the end the step points to.
\<close>

definition spec_slice_indices :: "nat \<Rightarrow> int \<Rightarrow> int \<Rightarrow> nat list" where
  "spec_slice_indices n start step =
     (let first = (if start < 0 then start + int n else start) in
      if 0 < step then
        (let lo = max first 0 in
         [i \<leftarrow> [0..<n]. lo \<le> int i \<and> (int i - lo) mod step = 0])
      else
        (let hi = min first (int n - 1) in
         rev [i \<leftarrow> [0..<n]. int i \<le> hi \<and> (hi - int i) mod (- step) = 0]))"

definition spec_slice :: "'b list \<Rightarrow> int \<Rightarrow> int \<Rightarrow> 'b list" where
  "spec_slice xs start step = map (\<lambda>i. xs ! i) (spec_slice_indices (length xs) start step)"

text \<open>The burn-in/thinning-adjusted samples of a variable: chain after chain.\<close>

definition spec_trace_slice :: "('c \<Rightarrow> 'b list) \<Rightarrow> 'c list \<Rightarrow> int \<Rightarrow> int \<Rightarrow> 'b list" where
  "spec_trace_slice var trace nburn thin = concat (map (\<lambda>c. spec_slice (var c) nburn thin) trace)"

text \<open>
  \<^verbatim>\<open>a.shape[1]\<close> of an array held as the list of its \<^verbatim>\<open>a.shape[0]\<close> slices. (With
  no slice at all the list does not hold the number; no loop reads it then.)
\<close>

definition shape1 :: "'a list list \<Rightarrow> nat" where
  "shape1 a = (case a of [] \<Rightarrow> 0 | x # _ \<Rightarrow> length x)"

definition getitem3 :: "'a list list list \<Rightarrow> nat \<Rightarrow> nat \<Rightarrow> nat \<Rightarrow> py_error + 'a" where
  "getitem3 a i j k = (case getitem a i of Inl e \<Rightarrow> Inl e | Inr m \<Rightarrow> getitem2 m j k)"

text \<open>
  \<^verbatim>\<open>if inputs[i, j] > 0: rows.append(('inputs', possible_inputs[j], '?', i, inputs[i, j]))\<close>
\<close>

definition sample_inputs_body ::
  "string list \<Rightarrow> ('a::{zero,ord}) list list \<Rightarrow> nat \<Rightarrow> nat \<Rightarrow> 'a sample_edge list
     \<Rightarrow> py_error + 'a sample_edge list" where
  "sample_inputs_body possible_inputs inputs i j rows =
     (case getitem2 inputs i j of Inl e \<Rightarrow> Inl e
      | Inr v \<Rightarrow>
          if 0 < v then
            (case getitem possible_inputs j of Inl e \<Rightarrow> Inl e
             | Inr nm \<Rightarrow> Inr (rows @ [(''inputs'', nm, ''?'', i, v)]))
          else Inr rows)"

text \<open>
  \<^verbatim>\<open>if flows[i, j, k] > 0: rows.append((process_ids[j], process_ids[k], '?', i, flows[i, j, k]))\<close>
\<close>

definition sample_cell_body ::
  "string list \<Rightarrow> ('a::{zero,ord}) list list list \<Rightarrow> nat \<Rightarrow> nat \<Rightarrow> nat \<Rightarrow> 'a sample_edge list
     \<Rightarrow> py_error + 'a sample_edge list" where
  "sample_cell_body process_ids flows i j k rows =
     (case getitem3 flows i j k of Inl e \<Rightarrow> Inl e
      | Inr v \<Rightarrow>
          if 0 < v then
            (case getitem process_ids j of Inl e \<Rightarrow> Inl e
             | Inr src \<Rightarrow>
                 (case getitem process_ids k of Inl e \<Rightarrow> Inl e
                  | Inr tgt \<Rightarrow> Inr (rows @ [(src, tgt, ''?'', i, v)])))
          else Inr rows)"

text \<open>The body of the loop over the samples: the inputs of sample \<open>i\<close>, then its matrix.\<close>

definition sample_body ::
  "string list \<Rightarrow> string list \<Rightarrow> ('a::{zero,ord}) list list \<Rightarrow> 'a list list list \<Rightarrow> nat \<Rightarrow> nat
     \<Rightarrow> 'a sample_edge list \<Rightarrow> py_error + 'a sample_edge list" where
  "sample_body possible_inputs process_ids inputs flows Np i rows =
     (case for_loop (py_range (shape1 inputs)) (sample_inputs_body possible_inputs inputs i) rows of
        Inl e \<Rightarrow> Inl e
      | Inr rows' \<Rightarrow>
          for_loop (py_range Np) (\<lambda>j. for_loop (py_range Np) (sample_cell_body process_ids flows i j))
            rows')"

text \<open>The defaults of the source are \<^verbatim>\<open>nburn=100\<close> and \<^verbatim>\<open>thin=10\<close>.\<close>

definition flows_from_trace ::
  "'m registry \<Rightarrow> string list \<Rightarrow> ('a::{zero,ord}) trace \<Rightarrow> int \<Rightarrow> int
     \<Rightarrow> py_error + 'a sample_edge dataframe" where
  "flows_from_trace processes possible_inputs trace nburn thin =
     (case get_values var_inputs trace nburn thin of
        Inl e \<Rightarrow> Inl e
      | Inr inputs \<Rightarrow>
          (case get_values var_F trace nburn thin of
             Inl e \<Rightarrow> Inl e
           | Inr flows \<Rightarrow>
               (let process_ids = keys processes; Np = shape1 flows in
                case for_loop (py_range (length flows))
                       (sample_body possible_inputs process_ids inputs flows Np) [] of
                  Inl e \<Rightarrow> Inl e
                | Inr rows \<Rightarrow>
                    Inr (from_records rows
                           [''source'', ''target'', ''material'', ''sample'', ''value'']))))"

definition sample_of :: "'a sample_edge \<Rightarrow> nat" where
  "sample_of r = fst (snd (snd (snd r)))"

definition sample_value :: "'a sample_edge \<Rightarrow> 'a" where
  "sample_value r = snd (snd (snd (snd r)))"

text \<open>
  The rows of one sample in the words of the specification: the records of the positive
  inputs of sample \<open>i\<close>, then those of the positive cells of its matrix, each tagged
  with \<open>i\<close>.
\<close>

definition spec_sample_input_rows ::
  "string list \<Rightarrow> ('a::{zero,ord}) list list \<Rightarrow> nat \<Rightarrow> 'a sample_edge list" where
  "spec_sample_input_rows possible_inputs inputs i =
     [(''inputs'', possible_inputs ! j, ''?'', i, inputs ! i ! j).
        j \<leftarrow> [0..<shape1 inputs], 0 < inputs ! i ! j]"

definition spec_sample_matrix_rows ::
  "string list \<Rightarrow> ('a::{zero,ord}) list list list \<Rightarrow> nat \<Rightarrow> 'a sample_edge list" where
  "spec_sample_matrix_rows process_ids flows i =
     [(process_ids ! j, process_ids ! k, ''?'', i, flows ! i ! j ! k).
        j \<leftarrow> [0..<shape1 flows], k \<leftarrow> [0..<shape1 flows], 0 < flows ! i ! j ! k]"

section \<open>The animation loop: \<^verbatim>\<open>play\<close> in \<^verbatim>\<open>animate_samples\<close>\<close>

text \<open>
  The calls of the loop body (\<^verbatim>\<open>update(i)\<close>, \<^verbatim>\<open>widget.set_scale()\<close>,
  \<^verbatim>\<open>time.sleep(0.5)\<close>) act on the widget and its environment, the state \<open>'w\<close>. A
  call returns the state it leaves, and the exception it raised if it raised one: the
  widget is updated in place, so what was done before an exception stays done. A user
  interrupt arrives as the exception \<^verbatim>\<open>KeyboardInterrupt\<close> of the call it interrupts.
\<close>

type_synonym 'w effect = "'w \<Rightarrow> py_error option \<times> 'w"

definition seq :: "'w effect \<Rightarrow> 'w effect \<Rightarrow> 'w effect" where
  "seq f g w = (case f w of (Some e, w') \<Rightarrow> (Some e, w') | (None, w') \<Rightarrow> g w')"

definition skip :: "'w effect" where
  "skip w = (None, w)"

fun for_loop_st :: "'i list \<Rightarrow> ('i \<Rightarrow> 'w effect) \<Rightarrow> 'w effect" where
  "for_loop_st [] body w = (None, w)"
| "for_loop_st (i # is) body w =
     (case body i w of (Some e, w') \<Rightarrow> (Some e, w') | (None, w') \<Rightarrow> for_loop_st is body w')"

text \<open>\<^verbatim>\<open>range(0, n, step)\<close> for a positive step: \<open>0, step, 2 * step, ...\<close> below \<open>n\<close>.\<close>

definition py_range_step :: "nat \<Rightarrow> nat \<Rightarrow> nat list" where
  "py_range_step n step = map (\<lambda>k. k * step) [0..<(n + step - 1) div step]"

text \<open>
  \<^verbatim>\<open>update(i); if rescale: widget.set_scale(); time.sleep(0.5)\<close>
\<close>

definition play_body ::
  "(nat \<Rightarrow> 'w effect) \<Rightarrow> 'w effect \<Rightarrow> 'w effect \<Rightarrow> bool \<Rightarrow> nat \<Rightarrow> 'w effect" where
  "play_body update set_scale sleep rescale i =
     seq (update i) (seq (if rescale then set_scale else skip) sleep)"

text \<open>
  \<^verbatim>\<open>try: for i in range(0, len(trace), 10): ... except KeyboardInterrupt: return\<close>,
  with \<open>n\<close> the length of the trace. The handler names \<^verbatim>\<open>KeyboardInterrupt\<close> only.
\<close>

definition play ::
  "(nat \<Rightarrow> 'w effect) \<Rightarrow> 'w effect \<Rightarrow> 'w effect \<Rightarrow> bool \<Rightarrow> nat \<Rightarrow> 'w effect" where
  "play update set_scale sleep rescale n w =
     (case for_loop_st (py_range_step n 10) (play_body update set_scale sleep rescale) w of
        (r, w') \<Rightarrow> if r = Some KeyboardInterrupt then (None, w') else (r, w'))"

section \<open>Credible-interval scales\<close>

text \<open>
  \<^verbatim>\<open>pm.hpd\<close> is the statistics library's: a parameter \<open>hpd\<close>, from the samples to
  the array of the interval's two ends, or to the exception it raises. Sample values are
  real numbers; a result that numpy would give as \<^verbatim>\<open>inf\<close> or \<^verbatim>\<open>nan\<close> (the mean of no
  sample, a division by zero) is \<open>None\<close>.
\<close>

definition hpd_range :: "(real list \<Rightarrow> py_error + real list) \<Rightarrow> real list \<Rightarrow> py_error + real" where
  "hpd_range hpd x =
     (case hpd x of Inl e \<Rightarrow> Inl e
      | Inr h \<Rightarrow>
          (case getitem h 1 of Inl e \<Rightarrow> Inl e
           | Inr hi \<Rightarrow>
               (case getitem h 0 of Inl e \<Rightarrow> Inl e
                | Inr lo \<Rightarrow> Inr (hi - lo))))"

text \<open>\<^verbatim>\<open>d[k]\<close> on a dict.\<close>

definition dict_getitem :: "('k \<rightharpoonup> 'v) \<Rightarrow> 'k \<Rightarrow> py_error + 'v" where
  "dict_getitem d k = (case d k of None \<Rightarrow> Inl KeyError | Some v \<Rightarrow> Inr v)"

definition np_mean :: "real list \<Rightarrow> real option" where
  "np_mean x = (if x = [] then None else Some (sum_list x / real (length x)))"

definition np_divide :: "real \<Rightarrow> real option \<Rightarrow> real option" where
  "np_divide a b = (case b of None \<Rightarrow> None | Some m \<Rightarrow> if m = 0 then None else Some (a / m))"

definition AbsoluteHPDRangeScale_get_value ::
  "(real list \<Rightarrow> py_error + real list) \<Rightarrow> 'l \<Rightarrow> (string \<rightharpoonup> real list) \<Rightarrow> py_error + real" where
  "AbsoluteHPDRangeScale_get_value hpd link measures_dict =
     (case dict_getitem measures_dict ''value'' of Inl e \<Rightarrow> Inl e
      | Inr v \<Rightarrow> hpd_range hpd v)"

definition NormalisedHPDRangeScale_get_value ::
  "(real list \<Rightarrow> py_error + real list) \<Rightarrow> 'l \<Rightarrow> (string \<rightharpoonup> real list)
     \<Rightarrow> py_error + real option" where
  "NormalisedHPDRangeScale_get_value hpd link measures_dict =
     (case dict_getitem measures_dict ''value'' of Inl e \<Rightarrow> Inl e
      | Inr v \<Rightarrow>
          (case hpd_range hpd v of Inl e \<Rightarrow> Inl e
           | Inr r \<Rightarrow>
               (case dict_getitem measures_dict ''value'' of Inl e \<Rightarrow> Inl e
                | Inr v' \<Rightarrow> Inr (np_divide r (np_mean v')))))"

section \<open>\<^verbatim>\<open>rgb2hex\<close>\<close>

text \<open>
  The components are Python floats. A finite float64 is \<open>m * 2 ^ e\<close> for integers
  \<open>m\<close> and \<open>e\<close>, held as the pair \<open>(m, e)\<close>: a significand below \<open>2 ^ 53\<close> in
  magnitude and an exponent from \<open>- 1074\<close> to \<open>971\<close>.
\<close>

type_synonym float64 = "int \<times> int"

definition float_value :: "float64 \<Rightarrow> real" where
  "float_value x =
     (case x of (m, e) \<Rightarrow>
        if 0 \<le> e then of_int m * 2 ^ nat e else of_int m / 2 ^ nat (- e))"

definition is_float64 :: "float64 \<Rightarrow> bool" where
  "is_float64 x = (case x of (m, e) \<Rightarrow> \<bar>m\<bar> < 2 ^ 53 \<and> - 1074 \<le> e \<and> e \<le> 971)"

text \<open>The number of binary digits of a natural number.\<close>

fun bit_length :: "nat \<Rightarrow> nat" where
  "bit_length n = (if n = 0 then 0 else Suc (bit_length (n div 2)))"

declare bit_length.simps [simp del]

text \<open>
  The quotient \<open>p / d\<close> of integers, for a positive \<open>d\<close>, rounded to the nearest
  integer, a half to the even neighbour.
\<close>

definition round_half_even :: "int \<Rightarrow> int \<Rightarrow> int" where
  "round_half_even p d =
     (let q = p div d; r = p mod d in
      if 2 * r < d then q else if d < 2 * r then q + 1 else if even q then q else q + 1)"

text \<open>
  \<^verbatim>\<open>val * 255\<close> on a float: the exact product, rounded to a significand of 53 binary
  digits, a half to the even neighbour. (A product beyond the largest float would be
  \<^verbatim>\<open>inf\<close>; none is for a component of at most 1.)
\<close>

definition float_mul_int :: "float64 \<Rightarrow> int \<Rightarrow> float64" where
  "float_mul_int x k =
     (case x of (m, e) \<Rightarrow>
        (let p = m * k; b = bit_length (nat \<bar>p\<bar>) in
         if b \<le> 53 then (p, e)
         else (round_half_even p (2 ^ (b - 53)), e + int (b - 53))))"

text \<open>
  \<^verbatim>\<open>int(np.round(v))\<close> on a float: \<^verbatim>\<open>np.round\<close> rounds to the nearest integer, a
  half to the even neighbour, and the result is an integer that \<^verbatim>\<open>int\<close> returns as
  it is.
\<close>

definition np_round :: "float64 \<Rightarrow> int" where
  "np_round x =
     (case x of (m, e) \<Rightarrow>
        if 0 \<le> e then m * 2 ^ nat e else round_half_even m (2 ^ nat (- e)))"

definition hexchar :: "nat \<Rightarrow> char" where
  "hexchar d = ''0123456789abcdef'' ! d"

fun hex_digits :: "nat \<Rightarrow> string" where
  "hex_digits n = (if n < 16 then [hexchar n] else hex_digits (n div 16) @ [hexchar (n mod 16)])"

declare hex_digits.simps [simp del]

text \<open>
  \<^verbatim>\<open>'%02x' % n\<close>: lower-case hexadecimal, padded with zeros to two characters; the
  sign of a negative number counts as one of them.
\<close>

definition format_02x :: "int \<Rightarrow> string" where
  "format_02x n =
     (if n < 0 then CHR ''-'' # hex_digits (nat (- n))
      else (let s = hex_digits (nat n) in replicate (2 - length s) CHR ''0'' @ s))"

text \<open>
  \<^verbatim>\<open>'#%02x%02x%02x' % tuple([int(np.round(val * 255)) for val in rgb[:3]])\<close>:
  the format takes three arguments, and a tuple of fewer raises \<^verbatim>\<open>TypeError\<close>.
\<close>

definition rgb2hex :: "float64 list \<Rightarrow> py_error + string" where
  "rgb2hex rgb =
     (let vals = map (\<lambda>val. np_round (float_mul_int val 255)) (take 3 rgb) in
      if length vals = 3 then Inr (CHR ''#'' # concat (map format_02x vals))
      else Inl TypeError)"

text \<open>The two hexadecimal digits of a number from 0 to 255.\<close>

definition spec_hex2 :: "int \<Rightarrow> string" where
  "spec_hex2 n = [hexchar (nat n div 16), hexchar (nat n mod 16)]"

section \<open>\<^verbatim>\<open>show_variance\<close> and the names it reads\<close>

text \<open>
  A name read in a function body is looked up among the function's local names, then
  among the module's global names, then among the builtins (none of which is called
  \<^verbatim>\<open>scale\<close>); a name found nowhere raises \<^verbatim>\<open>NameError\<close>. The global names are
  those the module binds: its imports, functions and classes.
\<close>

definition module_globals :: "string list" where
  "module_globals =
     [''time'', ''np'', ''pd'', ''ipywidgets'', ''Dataset'', ''weave'', ''qualitative'',
      ''sequential'', ''inputs_flows_as_dataframe'', ''flows_from_trace'', ''show_sample'',
      ''animate_samples'', ''floweaver'', ''SankeyWidget'', ''mpl'', ''plt'', ''pm'',
      ''hpd_range'', ''rgb2hex'', ''weave_variance'', ''show_variance'', ''save_variance'',
      ''_calc_variance'', ''AbsoluteHPDRangeScale'', ''NormalisedHPDRangeScale'', ''colorbar'']"

definition show_variance_locals :: "string list" where
  "show_variance_locals =
     [''flows'', ''sdd'', ''normed'', ''vlim'', ''width'', ''palette'', ''result'']"

definition load_name :: "string list \<Rightarrow> string \<Rightarrow> py_error + unit" where
  "load_name locals name =
     (if name \<in> set locals \<or> name \<in> set module_globals then Inr () else Inl NameError)"

text \<open>
  \<open>wv\<close> is the outcome of the call \<^verbatim>\<open>weave_variance(flows, sdd, normed, vlim, palette)\<close>,
  \<open>colorbar\<close> that of the call of \<^verbatim>\<open>colorbar\<close>, and \<open>to_widget\<close> the library's method.
  The arguments of \<^verbatim>\<open>colorbar(palette, scale.domain[0], ...)\<close> are evaluated before
  the call, from left to right.
\<close>

definition show_variance ::
  "py_error + ('r \<times> 'd) \<Rightarrow> py_error + 'f \<Rightarrow> ('r \<Rightarrow> py_error + 'g) \<Rightarrow> py_error + 'g" where
  "show_variance wv colorbar to_widget =
     (case wv of Inl e \<Rightarrow> Inl e
      | Inr (result, vlim) \<Rightarrow>
          (case load_name show_variance_locals ''colorbar'' of Inl e \<Rightarrow> Inl e
           | Inr _ \<Rightarrow>
               (case load_name show_variance_locals ''palette'' of Inl e \<Rightarrow> Inl e
                | Inr _ \<Rightarrow>
                    (case load_name show_variance_locals ''scale'' of Inl e \<Rightarrow> Inl e
                     | Inr _ \<Rightarrow>
                         (case colorbar of Inl e \<Rightarrow> Inl e
                          | Inr _ \<Rightarrow> to_widget result)))))"

section \<open>Loops that only append\<close>

lemma for_loop_append:
  "for_loop (xs @ ys) body s =
     (case for_loop xs body s of Inl e \<Rightarrow> Inl e | Inr s' \<Rightarrow> for_loop ys body s')"
  by (induction xs arbitrary: s) (auto split: sum.splits)

lemma for_loop_emitted:
  assumes "\<And>i s s'. i \<in> set xs \<Longrightarrow> body i s = Inr s' \<Longrightarrow> s' = s @ h i"
    and "for_loop xs body s = Inr s'"
  shows "s' = s @ concat (map h xs)"
  using assms
proof (induction xs arbitrary: s)
  case Nil
  then show ?case by simp
next
  case (Cons i xs)
  from Cons.prems(2) obtain s1 where b: "body i s = Inr s1" and l: "for_loop xs body s1 = Inr s'"
    by (auto split: sum.splits)
  from Cons.prems(1)[OF _ b] have s1: "s1 = s @ h i" by simp
  have "s' = s1 @ concat (map h xs)"
    using Cons.IH[OF _ l] Cons.prems(1) by simp
  with s1 show ?case by simp
qed

lemma for_loop_emits:
  assumes "\<And>i s. i \<in> set xs \<Longrightarrow> body i s = Inr (s @ h i)"
  shows "for_loop xs body s = Inr (s @ concat (map h xs))"
  using assms by (induction xs arbitrary: s) auto

lemma inputs_body_emitted:
  assumes "inputs_body possible_inputs I i flows = Inr flows'"
  shows "flows' = flows @ (if 0 < I ! i then [(''inputs'', possible_inputs ! i, ''?'', I ! i)] else [])"
  using assms
  by (auto simp: inputs_body_def getitem_def split: sum.splits if_splits)

lemma cell_body_emitted:
  assumes "cell_body process_ids F i j flows = Inr flows'"
  shows "flows' = flows @ (if 0 < F ! i ! j then [(process_ids ! i, process_ids ! j, ''?'', F ! i ! j)] else [])"
  using assms
  by (auto simp: cell_body_def getitem_def getitem2_def split: sum.splits if_splits)

lemma inputs_loop_emitted:
  assumes "for_loop (py_range (length I)) (inputs_body possible_inputs I) flows = Inr flows'"
  shows "flows' = flows @ spec_input_edges possible_inputs I"
proof -
  let ?h = "\<lambda>i. if 0 < I ! i then [(''inputs'', possible_inputs ! i, ''?'', I ! i)] else []"
  have "flows' = flows @ concat (map ?h (py_range (length I)))"
    by (rule for_loop_emitted[OF _ assms]) (rule inputs_body_emitted)
  then show ?thesis
    by (simp add: spec_input_edges_def py_range_def)
qed

lemma matrix_loop_emitted:
  assumes "for_loop (py_range (length F)) (\<lambda>i. for_loop (py_range (length F)) (cell_body process_ids F i)) flows = Inr flows'"
  shows "flows' = flows @ spec_matrix_edges process_ids F"
proof -
  let ?cell = "\<lambda>i j. if 0 < F ! i ! j then [(process_ids ! i, process_ids ! j, ''?'', F ! i ! j)] else []"
  let ?row = "\<lambda>i. concat (map (?cell i) [0..<length F])"
  let ?row' = "\<lambda>i. concat (map (?cell i) (py_range (length F)))"
  have inner: "s' = s @ ?row' i" if "for_loop (py_range (length F)) (cell_body process_ids F i) s = Inr s'" for i s s'
    by (rule for_loop_emitted[OF _ that]) (rule cell_body_emitted)
  have "flows' = flows @ concat (map ?row' (py_range (length F)))"
    by (rule for_loop_emitted[OF _ assms]) (rule inner)
  then show ?thesis
    by (simp add: spec_matrix_edges_def py_range_def)
qed

lemma inputs_flows_as_dataframe_records:
  assumes "inputs_flows_as_dataframe processes possible_inputs I F = Inr df"
  shows "df = from_records (spec_input_edges possible_inputs I @ spec_matrix_edges (keys processes) F)
      [''source'', ''target'', ''material'', ''value'']"
  using assms
  by (auto simp: inputs_flows_as_dataframe_def Let_def split: sum.splits
       dest!: inputs_loop_emitted matrix_loop_emitted)

lemma inputs_body_emits:
  assumes "i < length I" "length I \<le> length possible_inputs"
  shows "inputs_body possible_inputs I i flows =
    Inr (flows @ (if 0 < I ! i then [(''inputs'', possible_inputs ! i, ''?'', I ! i)] else []))"
  using assms by (simp add: inputs_body_def getitem_def)

lemma square_row:
  assumes "square F" "i < length F"
  shows "length (F ! i) = length F"
  using assms by (simp add: square_def list_all_length)

lemma cell_body_emits:
  assumes "square F" "i < length F" "j < length F" "length F \<le> length process_ids"
  shows "cell_body process_ids F i j flows =
    Inr (flows @ (if 0 < F ! i ! j then [(process_ids ! i, process_ids ! j, ''?'', F ! i ! j)] else []))"
  using assms by (simp add: cell_body_def getitem_def getitem2_def square_row)

lemma inputs_loop_emits:
  assumes "length I \<le> length possible_inputs"
  shows "for_loop (py_range (length I)) (inputs_body possible_inputs I) flows =
     Inr (flows @ spec_input_edges possible_inputs I)"
proof -
  let ?h = "\<lambda>i. if 0 < I ! i then [(''inputs'', possible_inputs ! i, ''?'', I ! i)] else []"
  have "for_loop (py_range (length I)) (inputs_body possible_inputs I) flows =
     Inr (flows @ concat (map ?h (py_range (length I))))"
    by (rule for_loop_emits) (simp add: py_range_def inputs_body_emits assms)
  then show ?thesis
    by (simp add: spec_input_edges_def py_range_def)
qed

lemma matrix_loop_emits:
  assumes "square F" "length F \<le> length process_ids"
  shows "for_loop (py_range (length F)) (\<lambda>i. for_loop (py_range (length F)) (cell_body process_ids F i)) flows =
     Inr (flows @ spec_matrix_edges process_ids F)"
proof -
  let ?cell = "\<lambda>i j. if 0 < F ! i ! j then [(process_ids ! i, process_ids ! j, ''?'', F ! i ! j)] else []"
  let ?row = "\<lambda>i. concat (map (?cell i) (py_range (length F)))"
  have inner: "for_loop (py_range (length F)) (cell_body process_ids F i) s = Inr (s @ ?row i)"
    if "i \<in> set (py_range (length F))" for i s
    by (rule for_loop_emits) (use that in \<open>simp add: py_range_def cell_body_emits assms\<close>)
  have "for_loop (py_range (length F)) (\<lambda>i. for_loop (py_range (length F)) (cell_body process_ids F i)) flows
     = Inr (flows @ concat (map ?row (py_range (length F))))"
    by (rule for_loop_emits) (rule inner)
  then show ?thesis
    by (simp add: spec_matrix_edges_def py_range_def)
qed

lemma length_comprehension:
  "length (concat (map (\<lambda>i. if P i then [f i] else []) xs)) = length (filter P xs)"
  by (induction xs) auto

lemma length_filter_nth:
  "length (filter (\<lambda>i. P (xs ! i)) [0..<length xs]) = length (filter P xs)"
proof -
  have "filter P xs = filter P (map ((!) xs) [0..<length xs])"
    by (simp add: map_nth)
  also have "\<dots> = map ((!) xs) (filter (\<lambda>i. P (xs ! i)) [0..<length xs])"
    by (simp add: filter_map comp_def)
  finally show ?thesis by simp
qed

lemma length_spec_input_edges:
  "length (spec_input_edges possible_inputs I) = length (filter (\<lambda>v. 0 < v) I)"
  by (simp add: spec_input_edges_def length_comprehension length_filter_nth)

lemma length_concat_map:
  "length (concat (map g xs)) = sum_list (map (\<lambda>i. length (g i)) xs)"
  by (induction xs) auto

lemma length_spec_matrix_edges:
  assumes "square F"
  shows "length (spec_matrix_edges process_ids F) = positive_cells F"
proof -
  let ?row = "\<lambda>i. concat (map (\<lambda>j. if 0 < F ! i ! j
      then [(process_ids ! i, process_ids ! j, ''?'', F ! i ! j)] else []) [0..<length F])"
  have row: "length (?row i) = length (filter (\<lambda>v. 0 < v) (F ! i))" if "i < length F" for i
    using length_filter_nth[of "\<lambda>v. 0 < v" "F ! i"] square_row[OF assms that]
    by (simp add: length_comprehension)
  have "length (spec_matrix_edges process_ids F) =
     sum_list (map (\<lambda>i. length (?row i)) [0..<length F])"
    unfolding spec_matrix_edges_def by (rule length_concat_map)
  also have "\<dots> = sum_list (map (\<lambda>i. length (filter (\<lambda>v. 0 < v) (F ! i))) [0..<length F])"
    by (rule arg_cong[where f = sum_list], rule map_cong) (simp_all only: row set_upt atLeastLessThan_iff)
  also have "\<dots> = sum_list (map (\<lambda>row. length (filter (\<lambda>v. 0 < v) row)) (map ((!) F) [0..<length F]))"
    by (simp add: comp_def)
  also have "\<dots> = positive_cells F"
    by (simp only: map_nth positive_cells_def)
  finally show ?thesis .
qed

section \<open>The rows of a trace\<close>

lemma sample_inputs_body_emitted:
  assumes "sample_inputs_body possible_inputs inputs i j rows = Inr rows'"
  shows "rows' = rows @
    (if 0 < inputs ! i ! j then [(''inputs'', possible_inputs ! j, ''?'', i, inputs ! i ! j)] else [])"
  using assms
  by (auto simp: sample_inputs_body_def getitem_def getitem2_def split: sum.splits if_splits)

lemma sample_cell_body_emitted:
  assumes "sample_cell_body process_ids flows i j k rows = Inr rows'"
  shows "rows' = rows @
    (if 0 < flows ! i ! j ! k then [(process_ids ! j, process_ids ! k, ''?'', i, flows ! i ! j ! k)] else [])"
  using assms
  by (auto simp: sample_cell_body_def getitem_def getitem2_def getitem3_def
      split: sum.splits if_splits)

lemma sample_inputs_loop_emitted:
  assumes "for_loop (py_range (shape1 inputs)) (sample_inputs_body possible_inputs inputs i) rows
     = Inr rows'"
  shows "rows' = rows @ spec_sample_input_rows possible_inputs inputs i"
proof -
  let ?h = "\<lambda>j. if 0 < inputs ! i ! j
     then [(''inputs'', possible_inputs ! j, ''?'', i, inputs ! i ! j)] else []"
  have "rows' = rows @ concat (map ?h (py_range (shape1 inputs)))"
    by (rule for_loop_emitted[OF _ assms]) (rule sample_inputs_body_emitted)
  then show ?thesis
    by (simp add: spec_sample_input_rows_def py_range_def)
qed

lemma sample_matrix_loop_emitted:
  assumes "for_loop (py_range (shape1 flows))
      (\<lambda>j. for_loop (py_range (shape1 flows)) (sample_cell_body process_ids flows i j)) rows
     = Inr rows'"
  shows "rows' = rows @ spec_sample_matrix_rows process_ids flows i"
proof -
  let ?cell = "\<lambda>j k. if 0 < flows ! i ! j ! k
     then [(process_ids ! j, process_ids ! k, ''?'', i, flows ! i ! j ! k)] else []"
  let ?row = "\<lambda>j. concat (map (?cell j) (py_range (shape1 flows)))"
  have inner: "s' = s @ ?row j"
    if "for_loop (py_range (shape1 flows)) (sample_cell_body process_ids flows i j) s = Inr s'"
    for j s s'
    by (rule for_loop_emitted[OF _ that]) (rule sample_cell_body_emitted)
  have "rows' = rows @ concat (map ?row (py_range (shape1 flows)))"
    by (rule for_loop_emitted[OF _ assms]) (rule inner)
  then show ?thesis
    by (simp add: spec_sample_matrix_rows_def py_range_def)
qed

lemma sample_body_emitted:
  assumes "sample_body possible_inputs process_ids inputs flows (shape1 flows) i rows = Inr rows'"
  shows "rows' = rows @ (spec_sample_input_rows possible_inputs inputs i @
     spec_sample_matrix_rows process_ids flows i)"
  using assms
  by (auto simp: sample_body_def split: sum.splits
      dest!: sample_inputs_loop_emitted sample_matrix_loop_emitted)

lemma flows_from_trace_records:
  assumes "flows_from_trace processes possible_inputs trace nburn thin = Inr df"
  shows "\<exists>inputs flows.
     get_values var_inputs trace nburn thin = Inr inputs \<and>
     get_values var_F trace nburn thin = Inr flows \<and>
     df = from_records
       (concat (map (\<lambda>i. spec_sample_input_rows possible_inputs inputs i @
                        spec_sample_matrix_rows (keys processes) flows i) [0..<length flows]))
       [''source'', ''target'', ''material'', ''sample'', ''value'']"
proof -
  from assms obtain inputs flows rows where
    i: "get_values var_inputs trace nburn thin = Inr inputs" and
    f: "get_values var_F trace nburn thin = Inr flows" and
    l: "for_loop (py_range (length flows))
          (sample_body possible_inputs (keys processes) inputs flows (shape1 flows)) [] = Inr rows" and
    d: "df = from_records rows [''source'', ''target'', ''material'', ''sample'', ''value'']"
    by (auto simp: flows_from_trace_def Let_def split: sum.splits)
  have "rows = [] @ concat (map (\<lambda>i. spec_sample_input_rows possible_inputs inputs i @
                        spec_sample_matrix_rows (keys processes) flows i) (py_range (length flows)))"
    by (rule for_loop_emitted[OF _ l]) (rule sample_body_emitted)
  with i f d show ?thesis by (simp add: py_range_def)
qed

lemma sample_of_input_rows:
  "r \<in> set (spec_sample_input_rows possible_inputs inputs i) \<Longrightarrow>
     sample_of r = i \<and> 0 < sample_value r"
  by (auto simp: spec_sample_input_rows_def sample_of_def sample_value_def split: if_splits)

lemma sample_of_matrix_rows:
  "r \<in> set (spec_sample_matrix_rows process_ids flows i) \<Longrightarrow>
     sample_of r = i \<and> 0 < sample_value r"
  by (auto simp: spec_sample_matrix_rows_def sample_of_def sample_value_def split: if_splits)

section \<open>Slices\<close>

lemma le_div_imp_mult_le:
  fixes a b :: int
  assumes "0 < b" "int k \<le> a div b"
  shows "int k * b \<le> a"
proof -
  have "int k * b \<le> a div b * b"
    using assms by (simp add: mult_right_mono)
  also have "\<dots> \<le> a div b * b + a mod b"
    using pos_mod_sign[OF assms(1), of a] by linarith
  also have "\<dots> = a" by simp
  finally show ?thesis .
qed

lemma strictly_sorted_unique:
  fixes xs ys :: "nat list"
  assumes "sorted_wrt (<) xs" "sorted_wrt (<) ys" "set xs = set ys"
  shows "xs = ys"
  using assms by (simp add: strict_sorted_iff sorted_distinct_set_unique)

lemma count_up_iff:
  fixes s step :: int
  assumes "0 < step" "0 \<le> s" "s < int n"
  shows "(k < nat ((int n - s - 1) div step) + 1) = (s + int k * step < int n)"
proof
  assume "k < nat ((int n - s - 1) div step) + 1"
  moreover have "0 \<le> (int n - s - 1) div step"
    using assms by (simp add: pos_imp_zdiv_nonneg_iff)
  ultimately have "int k \<le> (int n - s - 1) div step" by linarith
  then have "int k * step \<le> int n - s - 1"
    using assms(1) by (rule le_div_imp_mult_le[rotated])
  then show "s + int k * step < int n" by linarith
next
  assume a: "s + int k * step < int n"
  then have "int k * step \<le> int n - s - 1" by linarith
  then have "int k * step div step \<le> (int n - s - 1) div step"
    using assms(1) by (rule zdiv_mono1)
  then have "int k \<le> (int n - s - 1) div step"
    using assms(1) by simp
  then show "k < nat ((int n - s - 1) div step) + 1" by linarith
qed

lemma forward_indices:
  fixes s step :: int
  assumes "0 < step" "0 \<le> s"
  shows "map (\<lambda>k. nat (s + int k * step))
            [0..<(if s < int n then nat ((int n - s - 1) div step) + 1 else 0)] =
         [i \<leftarrow> [0..<n]. s \<le> int i \<and> (int i - s) mod step = 0]"
    (is "?xs = ?ys")
proof (rule strictly_sorted_unique)
  let ?cnt = "if s < int n then nat ((int n - s - 1) div step) + 1 else 0"
  let ?f = "\<lambda>k. nat (s + int k * step)"
  have mono: "?f a < ?f b" if "a < b" for a b :: nat
  proof -
    from that have "int a * step < int b * step" using assms(1) by simp
    moreover have "0 \<le> int a * step" using assms(1) by simp
    ultimately show ?thesis using assms(2) by linarith
  qed
  have "sorted_wrt (\<lambda>a b. ?f a < ?f b) [0..<?cnt]"
    by (rule sorted_wrt_mono_rel[OF _ sorted_wrt_upt]) (rule mono)
  then show "sorted_wrt (<) ?xs" by (simp only: sorted_wrt_map)
  show "sorted_wrt (<) ?ys" by (rule sorted_wrt_filter) (rule sorted_wrt_upt)
  show "set ?xs = set ?ys"
  proof (intro set_eqI iffI)
    fix x assume "x \<in> set ?xs"
    then obtain k where k: "k < ?cnt" and x: "x = ?f k" by auto
    from k have sn: "s < int n" by (auto split: if_splits)
    with k have "s + int k * step < int n"
      using count_up_iff[OF assms sn, of k] by simp
    moreover have "0 \<le> int k * step" using assms(1) by simp
    moreover define m where "m = int k * step"
    ultimately have "int x = s + m" "s + m < int n" "0 \<le> m"
      using x assms(2) by simp_all
    moreover have "m mod step = 0" by (simp add: m_def)
    ultimately show "x \<in> set ?ys" by simp
  next
    fix x assume "x \<in> set ?ys"
    then have xn: "x < n" and sx: "s \<le> int x" and md: "(int x - s) mod step = 0" by auto
    from xn sx have sn: "s < int n" by linarith
    define k where "k = nat ((int x - s) div step)"
    have "0 \<le> (int x - s) div step"
      using sx assms(1) by (simp add: pos_imp_zdiv_nonneg_iff)
    then have "int k = (int x - s) div step" by (simp add: k_def)
    moreover have "(int x - s) div step * step = int x - s"
      using md by (simp add: mod_0_imp_dvd)
    ultimately have ks: "int k * step = int x - s" by simp
    then have "s + int k * step < int n" using xn by linarith
    then have "k < ?cnt" using count_up_iff[OF assms sn, of k] sn by simp
    moreover have "x = ?f k" using ks by simp
    ultimately show "x \<in> set ?xs" by (auto simp del: upt_Suc)
  qed
qed


lemma div_mult_exact:
  fixes a d :: int
  assumes "a mod d = 0"
  shows "a div d * d = a"
  using assms by (simp add: mod_0_imp_dvd)

lemma count_down_iff:
  fixes s step :: int
  assumes "step < 0" "0 \<le> s"
  shows "(k < nat (s div (- step)) + 1) = (0 \<le> s + int k * step)"
proof
  assume "k < nat (s div (- step)) + 1"
  moreover have "0 \<le> s div (- step)"
    using assms by (simp add: pos_imp_zdiv_nonneg_iff)
  ultimately have "int k \<le> s div (- step)" by linarith
  then have "int k * (- step) \<le> s"
    using assms(1) by (intro le_div_imp_mult_le) simp_all
  then show "0 \<le> s + int k * step" by simp
next
  assume "0 \<le> s + int k * step"
  then have "int k * (- step) \<le> s" by simp
  then have "int k * (- step) div (- step) \<le> s div (- step)"
    using assms(1) by (intro zdiv_mono1) simp_all
  then have "int k \<le> s div (- step)"
    using assms(1) by simp
  then show "k < nat (s div (- step)) + 1" by linarith
qed

lemma backward_indices:
  fixes s step :: int
  assumes "step < 0" "s < int n"
  shows "map (\<lambda>k. nat (s + int k * step))
            [0..<(if - 1 < s then nat (s div (- step)) + 1 else 0)] =
         rev [i \<leftarrow> [0..<n]. int i \<le> s \<and> (s - int i) mod (- step) = 0]"
    (is "?xs = rev ?ys")
proof -
  let ?cnt = "if - 1 < s then nat (s div (- step)) + 1 else 0"
  let ?f = "\<lambda>k. nat (s + int k * step)"
  have in_range: "0 \<le> s + int k * step" "0 \<le> s" if "k < ?cnt" for k
  proof -
    from that show s0: "0 \<le> s" by (auto split: if_splits)
    from that show "0 \<le> s + int k * step"
      using count_down_iff[OF assms(1) s0, of k] s0 by simp
  qed
  have "rev ?xs = ?ys"
  proof (rule strictly_sorted_unique)
    have mono: "?f b < ?f a" if "a \<in> set [0..<?cnt]" "b \<in> set [0..<?cnt]" "a < b" for a b
    proof -
      from that(3) have "int b * step < int a * step" using assms(1) by simp
      moreover have "0 \<le> s + int b * step" using in_range(1) that(2) by simp
      ultimately show ?thesis by linarith
    qed
    have "sorted_wrt (\<lambda>a b. ?f b < ?f a) [0..<?cnt]"
      by (rule sorted_wrt_mono_rel[OF _ sorted_wrt_upt]) (rule mono)
    then show "sorted_wrt (<) (rev ?xs)" by (simp only: sorted_wrt_rev sorted_wrt_map)
    show "sorted_wrt (<) ?ys" by (rule sorted_wrt_filter) (rule sorted_wrt_upt)
    show "set (rev ?xs) = set ?ys"
    proof (intro set_eqI iffI)
      fix x assume "x \<in> set (rev ?xs)"
      then obtain k where k: "k < ?cnt" and x: "x = ?f k" by auto
      define m where "m = int k * step"
      have "0 \<le> s + m" using in_range(1)[OF k] by (simp add: m_def)
      moreover have "m \<le> 0" using assms(1) by (simp add: m_def mult_nonneg_nonpos)
      moreover have "int x = s + m" using x \<open>0 \<le> s + m\<close> by (simp add: m_def)
      moreover have "(- m) mod (- step) = 0" by (simp add: m_def)
      ultimately show "x \<in> set ?ys" using assms(2) by simp
    next
      fix x assume "x \<in> set ?ys"
      then have xs: "int x \<le> s" and md: "(s - int x) mod (- step) = 0" by auto
      then have s0: "0 \<le> s" by linarith
      define k where "k = nat ((s - int x) div (- step))"
      have "0 \<le> (s - int x) div (- step)"
        using xs assms(1) by (simp add: pos_imp_zdiv_nonneg_iff)
      then have "int k = (s - int x) div (- step)" by (simp add: k_def)
      moreover have "(s - int x) div (- step) * (- step) = s - int x"
        using md by (rule div_mult_exact)
      ultimately have ks: "int k * (- step) = s - int x" by simp
      then have e: "s + int k * step = int x" by simp
      then have "0 \<le> s + int k * step" by simp
      then have "k < ?cnt" using count_down_iff[OF assms(1) s0, of k] s0 by simp
      moreover have "x = ?f k" using e by simp
      ultimately show "x \<in> set (rev ?xs)" by (auto simp del: upt_Suc)
    qed
  qed
  then have "rev (rev ?xs) = rev ?ys" by (rule arg_cong)
  then show ?thesis by (simp only: rev_rev_ident)
qed

lemma slice_indices_spec:
  "slice_indices n start step =
     (if step = 0 then Inl ValueError else Inr (spec_slice_indices n start step))"
proof (cases "step = 0")
  case True
  then show ?thesis by (simp add: slice_indices_def)
next
  case ne: False
  show ?thesis
  proof (cases "0 < step")
    case True
    define s where "s = (if start < 0 then max (start + int n) 0 else min start (int n))"
    define lo where "lo = max (if start < 0 then start + int n else start) 0"
    have s0: "0 \<le> s" by (simp add: s_def)
    have "slice_indices n start step =
        Inr (map (\<lambda>k. nat (s + int k * step))
           [0..<(if s < int n then nat ((int n - s - 1) div step) + 1 else 0)])"
      by (simp only: slice_indices_def Let_def s_def True ne if_True if_False)
    also have "\<dots> = Inr [i \<leftarrow> [0..<n]. s \<le> int i \<and> (int i - s) mod step = 0]"
      by (simp only: forward_indices[OF True s0])
    also have "[i \<leftarrow> [0..<n]. s \<le> int i \<and> (int i - s) mod step = 0] =
        [i \<leftarrow> [0..<n]. lo \<le> int i \<and> (int i - lo) mod step = 0]"
    proof (cases "s = lo")
      case True
      then show ?thesis by simp
    next
      case False
      then have "int n \<le> s" "int n \<le> lo" by (auto simp: s_def lo_def split: if_splits)
      then show ?thesis by (intro filter_cong) auto
    qed
    also have "\<dots> = spec_slice_indices n start step"
      by (simp only: spec_slice_indices_def Let_def lo_def True if_True)
    finally show ?thesis using ne by simp
  next
    case False
    with ne have neg: "step < 0" by simp
    define s where "s = (if start < 0 then max (start + int n) (- 1) else min start (int n - 1))"
    define hi where "hi = min (if start < 0 then start + int n else start) (int n - 1)"
    have sn: "s < int n" by (auto simp: s_def)
    have "slice_indices n start step =
        Inr (map (\<lambda>k. nat (s + int k * step))
           [0..<(if - 1 < s then nat (s div (- step)) + 1 else 0)])"
      by (simp only: slice_indices_def Let_def s_def False ne if_True if_False)
    also have "\<dots> = Inr (rev [i \<leftarrow> [0..<n]. int i \<le> s \<and> (s - int i) mod (- step) = 0])"
      by (simp only: backward_indices[OF neg sn])
    also have "[i \<leftarrow> [0..<n]. int i \<le> s \<and> (s - int i) mod (- step) = 0] =
        [i \<leftarrow> [0..<n]. int i \<le> hi \<and> (hi - int i) mod (- step) = 0]"
    proof (cases "s = hi")
      case True
      then show ?thesis by simp
    next
      case False
      then have "s < 0" "hi < 0" by (auto simp: s_def hi_def split: if_splits)
      then show ?thesis by (intro filter_cong) auto
    qed
    also have "Inr (rev [i \<leftarrow> [0..<n]. int i \<le> hi \<and> (hi - int i) mod (- step) = 0]) =
        (Inr (spec_slice_indices n start step) :: py_error + nat list)"
      by (simp only: spec_slice_indices_def Let_def hi_def False if_False)
    finally show ?thesis using ne by simp
  qed
qed

lemma getslice_spec:
  "getslice xs start step =
     (if step = 0 then Inl ValueError else Inr (spec_slice xs start step))"
  by (simp add: getslice_def slice_indices_spec spec_slice_def)

lemma chain_slices_spec:
  assumes "thin \<noteq> 0"
  shows "chain_slices var cs burn thin = Inr (map (\<lambda>c. spec_slice (var c) burn thin) cs)"
  using assms by (induction cs) (simp_all add: getslice_spec)

lemma chain_slices_zero_step:
  "chain_slices var (c # cs) burn 0 = Inl ValueError"
  by (simp add: getslice_spec)

lemma get_values_spec:
  "get_values var trace burn thin =
     (if trace = [] \<or> thin = 0 then Inl ValueError
      else Inr (spec_trace_slice var trace burn thin))"
proof (cases trace)
  case Nil
  then show ?thesis by (simp add: get_values_def np_concatenate_def)
next
  case (Cons c cs)
  show ?thesis
  proof (cases "thin = 0")
    case True
    then show ?thesis using Cons by (simp add: get_values_def getslice_spec)
  next
    case False
    moreover from Cons have "trace \<noteq> []" by simp
    ultimately show ?thesis
      by (simp add: get_values_def chain_slices_spec np_concatenate_def spec_trace_slice_def)
  qed
qed

lemma flows_from_trace_rows:
  assumes "flows_from_trace processes possible_inputs trace nburn thin = Inr df"
  shows "trace \<noteq> [] \<and> thin \<noteq> 0 \<and>
     records df =
       concat (map (\<lambda>i.
           spec_sample_input_rows possible_inputs
             (spec_trace_slice var_inputs trace nburn thin) i @
           spec_sample_matrix_rows (keys processes)
             (spec_trace_slice var_F trace nburn thin) i)
         [0..<length (spec_trace_slice var_F trace nburn thin)])"
proof -
  from flows_from_trace_records[OF assms] obtain inputs flows where
    i: "get_values var_inputs trace nburn thin = Inr inputs" and
    f: "get_values var_F trace nburn thin = Inr flows" and
    d: "records df = concat (map (\<lambda>i. spec_sample_input_rows possible_inputs inputs i @
        spec_sample_matrix_rows (keys processes) flows i) [0..<length flows])"
    by (auto simp: from_records_def)
  from i have ok: "trace \<noteq> [] \<and> thin \<noteq> 0"
    by (auto simp: get_values_spec split: if_splits)
  with i f have "inputs = spec_trace_slice var_inputs trace nburn thin"
    "flows = spec_trace_slice var_F trace nburn thin"
    by (simp_all add: get_values_spec)
  with d ok show ?thesis by simp
qed

section \<open>Rows tagged by their sample\<close>

lemma sorted_constant:
  assumes "\<And>x. x \<in> set xs \<Longrightarrow> f x = (c::nat)"
  shows "sorted (map f xs)"
  using assms by (induction xs) auto

lemma sorted_concat_tagged:
  assumes "\<And>i r. r \<in> set (g i) \<Longrightarrow> tag r = i"
  shows "sorted (map tag (concat (map g [0..<n])))"
proof (induction n)
  case 0
  then show ?case by simp
next
  case (Suc n)
  have a: "sorted (map tag (g n))"
    by (rule sorted_constant) (rule assms)
  have b: "tag x \<le> tag y" if "x \<in> set (concat (map g [0..<n]))" "y \<in> set (g n)" for x y
  proof -
    from that(1) obtain i where "i < n" "x \<in> set (g i)" by auto
    then have "tag x < n" using assms by simp
    moreover have "tag y = n" using that(2) assms by simp
    ultimately show ?thesis by simp
  qed
  have "map tag (concat (map g [0..<Suc n])) = map tag (concat (map g [0..<n])) @ map tag (g n)"
    by simp
  then show ?case using Suc a b by (simp add: sorted_append)
qed


lemma filter_all_tagged:
  assumes "\<And>x. x \<in> set xs \<Longrightarrow> f x = (c::nat)"
  shows "filter (\<lambda>r. f r = s) xs = (if s = c then xs else [])"
  using assms by (induction xs) auto

lemma filter_concat_tagged:
  assumes "\<And>i r. r \<in> set (g i) \<Longrightarrow> tag r = i"
  shows "filter (\<lambda>r. tag r = s) (concat (map g [0..<n])) = (if s < n then g s else [])"
proof (induction n)
  case 0
  then show ?case by simp
next
  case (Suc n)
  have last: "filter (\<lambda>r. tag r = s) (g n) = (if s = n then g n else [])"
    by (rule filter_all_tagged) (rule assms)
  have "filter (\<lambda>r. tag r = s) (concat (map g [0..<Suc n])) =
      filter (\<lambda>r. tag r = s) (concat (map g [0..<n])) @ filter (\<lambda>r. tag r = s) (g n)"
    by simp
  also have "\<dots> = (if s < n then g s else []) @ (if s = n then g n else [])"
    by (simp only: Suc last)
  also have "\<dots> = (if s < Suc n then g s else [])"
    by (simp add: less_Suc_eq)
  finally show ?case .
qed

lemma sample_rows_tagged:
  assumes "r \<in> set (spec_sample_input_rows possible_inputs inputs i @
     spec_sample_matrix_rows process_ids flows i)"
  shows "sample_of r = i"
  using assms sample_of_input_rows[of r possible_inputs inputs i]
    sample_of_matrix_rows[of r process_ids flows i]
  by auto

lemma spec_edges_material:
  "list_all (\<lambda>(src, tgt, material, v). material = ''?'')
     (spec_input_edges possible_inputs I @ spec_matrix_edges process_ids F)"
  by (auto simp: list_all_iff spec_input_edges_def spec_matrix_edges_def split: if_splits)

lemma spec_input_edges_origin:
  assumes "r \<in> set (spec_input_edges possible_inputs I)"
  shows "0 < edge_value r \<and> (\<exists>i < length I. edge_value r = I ! i)"
  using assms by (auto simp: spec_input_edges_def edge_value_def split: if_splits)

lemma spec_matrix_edges_origin:
  assumes "r \<in> set (spec_matrix_edges process_ids F)"
  shows "0 < edge_value r \<and> (\<exists>i < length F. \<exists>j < length F. edge_value r = F ! i ! j)"
proof -
  from assms obtain i j where "i < length F" "j < length F" "0 < F ! i ! j"
    "r = (process_ids ! i, process_ids ! j, ''?'', F ! i ! j)"
    by (auto simp: spec_matrix_edges_def split: if_splits)
  then show ?thesis by (auto simp: edge_value_def)
qed

section \<open>The animation loop\<close>

lemma for_loop_st_append:
  "for_loop_st (xs @ ys) body w =
     (case for_loop_st xs body w of
        (Some e, w') \<Rightarrow> (Some e, w')
      | (None, w') \<Rightarrow> for_loop_st ys body w')"
  by (induction xs arbitrary: w) (auto split: prod.splits option.splits)

lemma for_loop_st_raises:
  assumes "k < length xs"
    and "for_loop_st (take k xs) body w = (None, w1)"
    and "body (xs ! k) w1 = (Some e, w2)"
  shows "for_loop_st xs body w = (Some e, w2)"
proof -
  have "xs = take k xs @ (xs ! k # drop (Suc k) xs)"
    using assms(1) by (simp add: id_take_nth_drop)
  then have "for_loop_st xs body w = for_loop_st (take k xs @ (xs ! k # drop (Suc k) xs)) body w"
    by simp
  also have "\<dots> = (Some e, w2)"
    using assms(2,3) by (simp add: for_loop_st_append)
  finally show ?thesis .
qed

lemma play_body_raises:
  "play_body update set_scale sleep rescale i w =
     (case update i w of
        (Some e, w1) \<Rightarrow> (Some e, w1)
      | (None, w1) \<Rightarrow>
          (case (if rescale then set_scale w1 else (None, w1)) of
             (Some e, w2) \<Rightarrow> (Some e, w2)
           | (None, w2) \<Rightarrow> sleep w2))"
  by (simp add: play_body_def seq_def skip_def split: prod.splits option.splits)

section \<open>Rounding and hexadecimal digits\<close>

lemma bit_length_upper: "n < 2 ^ bit_length n"
proof (induction n rule: bit_length.induct)
  case (1 n)
  show ?case
  proof (cases "n = 0")
    case True
    then show ?thesis by (simp add: bit_length.simps)
  next
    case False
    with 1 have "n div 2 < 2 ^ bit_length (n div 2)" by simp
    then have "n < 2 * 2 ^ bit_length (n div 2)" by linarith
    then show ?thesis using False by (subst bit_length.simps) simp
  qed
qed

lemma bit_length_lower: "n \<noteq> 0 \<Longrightarrow> 2 ^ (bit_length n - 1) \<le> n"
proof (induction n rule: bit_length.induct)
  case (1 n)
  show ?case
  proof (cases "n div 2 = 0")
    case True
    with 1(2) have "n = 1" by (simp add: div_eq_0_iff) 
    then show ?thesis by (simp add: bit_length.simps)
  next
    case False
    with 1 have ih: "2 ^ (bit_length (n div 2) - 1) \<le> n div 2" by simp
    have pos: "0 < bit_length (n div 2)"
      using False by (subst bit_length.simps) simp
    have "bit_length n - 1 = Suc (bit_length (n div 2) - 1)"
      using 1(2) pos by (subst bit_length.simps) simp
    then have "(2 :: nat) ^ (bit_length n - 1) = 2 * 2 ^ (bit_length (n div 2) - 1)" by simp
    also have "\<dots> \<le> 2 * (n div 2)" using ih by simp
    also have "\<dots> \<le> n" by simp
    finally show ?thesis .
  qed
qed

lemma round_half_even_le:
  assumes "0 < d" "p \<le> B * d"
  shows "round_half_even p d \<le> B"
proof -
  have q: "p div d \<le> B"
  proof -
    have "p div d \<le> (B * d) div d" using assms by (intro zdiv_mono1)
    then show ?thesis using assms(1) by simp
  qed
  have up: "p div d + 1 \<le> B" if "d \<le> 2 * (p mod d)"
  proof -
    have "0 < p mod d" using that assms(1) by linarith
    moreover have "p = p div d * d + p mod d" by simp
    ultimately have "p div d * d < B * d" using assms(2) by linarith
    then have "p div d < B" using assms(1) by (simp add: mult_less_cancel_right)
    then show ?thesis by simp
  qed
  show ?thesis
    using q up by (auto simp: round_half_even_def Let_def)
qed

lemma round_half_even_nonneg:
  assumes "0 < d" "0 \<le> p"
  shows "0 \<le> round_half_even p d"
proof -
  have "0 \<le> p div d" using assms by (simp add: pos_imp_zdiv_nonneg_iff)
  then show ?thesis by (auto simp: round_half_even_def Let_def)
qed

lemma round_half_even_near:
  assumes "0 < d"
  shows "\<bar>2 * (round_half_even p d * d - p)\<bar> \<le> d"
proof -
  define q where "q = p div d"
  define r where "r = p mod d"
  have p: "p = q * d + r" by (simp add: q_def r_def)
  have r: "0 \<le> r" "r < d" using assms by (simp_all add: r_def)
  have "(round_half_even p d = q \<and> 2 * r \<le> d) \<or> (round_half_even p d = q + 1 \<and> d \<le> 2 * r)"
    by (auto simp: round_half_even_def Let_def q_def r_def)
  then show ?thesis
  proof
    assume a: "round_half_even p d = q \<and> 2 * r \<le> d"
    then have "round_half_even p d * d - p = - r" using p by simp
    with a r show ?thesis by simp
  next
    assume a: "round_half_even p d = q + 1 \<and> d \<le> 2 * r"
    then have "round_half_even p d * d - p = d - r" using p by (simp add: algebra_simps)
    with a r show ?thesis by simp
  qed
qed

lemma bit_length_le:
  assumes "n < 2 ^ k"
  shows "bit_length n \<le> k"
proof (cases "n = 0")
  case True
  then show ?thesis by (simp add: bit_length.simps)
next
  case False
  then have "(2 :: nat) ^ (bit_length n - 1) \<le> n" by (rule bit_length_lower)
  with assms have "(2 :: nat) ^ (bit_length n - 1) < 2 ^ k" by linarith
  then have "bit_length n - 1 < k" by (simp add: power_strict_increasing_iff)
  then show ?thesis by linarith
qed

lemma np_round_nonneg_exponent:
  assumes "0 \<le> e"
  shows "np_round (m, e) = m * 2 ^ nat e"
  using assms by (simp add: np_round_def)

lemma np_round_neg_exponent:
  assumes "e < 0"
  shows "np_round (m, e) = round_half_even m (2 ^ nat (- e))"
  using assms by (simp add: np_round_def)

lemma float_value_unit:
  assumes "0 \<le> float_value (m, e)" "float_value (m, e) \<le> 1"
  shows "0 \<le> m" and "0 \<le> e \<Longrightarrow> m * 2 ^ nat e \<le> 1" and "e < 0 \<Longrightarrow> m \<le> 2 ^ nat (- e)"
proof -
  show m0: "0 \<le> m"
  proof (cases "0 \<le> e")
    case True
    with assms(1) have "0 \<le> real_of_int m * 2 ^ nat e" by (simp add: float_value_def)
    then have "real_of_int 0 \<le> real_of_int (m * 2 ^ nat e)" by simp
    then have nn: "0 \<le> m * 2 ^ nat e" by (simp only: of_int_le_iff)
    show ?thesis
    proof (rule ccontr)
      assume "\<not> 0 \<le> m"
      then have "m < 0" by simp
      then have "m * 2 ^ nat e < 0" by (simp add: mult_neg_pos)
      with nn show False by simp
    qed
  next
    case False
    with assms(1) have nn: "0 \<le> real_of_int m / 2 ^ nat (- e)"
      by (simp add: float_value_def)
    show ?thesis
    proof (rule ccontr)
      assume "\<not> 0 \<le> m"
      then have "real_of_int m < 0" by simp
      then have "real_of_int m / 2 ^ nat (- e) < 0" by (simp add: divide_neg_pos)
      with nn show False by simp
    qed
  qed
  show "m * 2 ^ nat e \<le> 1" if "0 \<le> e"
  proof -
    from that assms(2) have "real_of_int m * 2 ^ nat e \<le> 1" by (simp add: float_value_def)
    then have "real_of_int (m * 2 ^ nat e) \<le> real_of_int 1" by simp
    then show ?thesis by (simp only: of_int_le_iff)
  qed
  show "m \<le> 2 ^ nat (- e)" if "e < 0"
  proof -
    from that assms(2) have "real_of_int m / 2 ^ nat (- e) \<le> 1" by (simp add: float_value_def)
    then have "real_of_int m \<le> 2 ^ nat (- e)" by (simp add: divide_le_eq)
    then have "real_of_int m \<le> real_of_int (2 ^ nat (- e))" by simp
    then show ?thesis by (simp only: of_int_le_iff)
  qed
qed

lemma product_round_bounds:
  assumes "0 \<le> float_value x" "float_value x \<le> 1"
  shows "0 \<le> np_round (float_mul_int x 255) \<and> np_round (float_mul_int x 255) \<le> 255"
proof -
  obtain m e where x: "x = (m, e)" by (cases x)
  note u = float_value_unit[OF assms[unfolded x]]
  define p where "p = m * 255"
  define b where "b = bit_length (nat \<bar>p\<bar>)"
  have p0: "0 \<le> p" using u(1) by (simp add: p_def)
  have y: "float_mul_int x 255 =
      (if b \<le> 53 then (p, e) else (round_half_even p (2 ^ (b - 53)), e + int (b - 53)))"
    by (simp add: float_mul_int_def x Let_def p_def b_def)
  show ?thesis
  proof (cases "0 \<le> e")
    case True
    from u(2)[OF True] have le1: "m * 2 ^ nat e \<le> 1" .
    have "m * 1 \<le> m * 2 ^ nat e"
      using u(1) by (intro mult_left_mono) simp_all
    with le1 have "m \<le> 1" by simp
    then have "nat \<bar>p\<bar> < 2 ^ 8" using p0 by (simp add: p_def)
    then have "b \<le> 8" unfolding b_def by (rule bit_length_le)
    then have "float_mul_int x 255 = (p, e)" by (simp add: y)
    then have r: "np_round (float_mul_int x 255) = 255 * (m * 2 ^ nat e)"
      using True by (simp add: np_round_nonneg_exponent p_def)
    have "0 \<le> m * 2 ^ nat e" using u(1) by simp
    with le1 show ?thesis unfolding r by simp
  next
    case False
    then have neg: "e < 0" by simp
    define N where "N = nat (- e)"
    have eN: "e = - int N" using neg by (simp add: N_def)
    from u(3)[OF neg] have mN: "m \<le> 2 ^ N" by (simp add: N_def)
    then have pN: "p \<le> 255 * 2 ^ N" by (simp add: p_def)
    show ?thesis
    proof (cases "b \<le> 53")
      case True
      then have "float_mul_int x 255 = (p, e)" by (simp add: y)
      then have r: "np_round (float_mul_int x 255) = round_half_even p (2 ^ N)"
        using neg by (simp add: np_round_neg_exponent N_def)
      have "round_half_even p (2 ^ N) \<le> 255"
        using pN by (intro round_half_even_le) simp_all
      moreover have "0 \<le> round_half_even p (2 ^ N)"
        using p0 by (intro round_half_even_nonneg) simp_all
      ultimately show ?thesis unfolding r by simp
    next
      case False
      define sh where "sh = b - 53"
      have sh: "0 < sh" "b = sh + 53" using False by (simp_all add: sh_def)
      have "nat \<bar>p\<bar> \<noteq> 0"
      proof
        assume "nat \<bar>p\<bar> = 0"
        then have "b = 0" by (simp add: b_def bit_length.simps)
        with False show False by simp
      qed
      then have "(2 :: nat) ^ (b - 1) \<le> nat \<bar>p\<bar>"
        unfolding b_def by (rule bit_length_lower)
      moreover have "nat \<bar>p\<bar> \<le> 255 * 2 ^ N"
      proof -
        have "nat \<bar>p\<bar> = nat p" using p0 by simp
        also have "\<dots> \<le> nat (255 * 2 ^ N)" using pN by simp
        also have "\<dots> = 255 * 2 ^ N" by (simp add: nat_mult_distrib nat_power_eq)
        finally show ?thesis .
      qed
      moreover have "(255 :: nat) * 2 ^ N < 2 ^ (8 + N)" by (simp add: power_add)
      ultimately have "(2 :: nat) ^ (b - 1) < 2 ^ (8 + N)" by linarith
      then have "b - 1 < 8 + N" by (simp add: power_strict_increasing_iff)
      with sh have shN: "sh < N" by linarith
      define M where "M = N - sh"
      have M: "N = M + sh" "0 < M" using shN by (simp_all add: M_def)
      define q where "q = round_half_even p (2 ^ sh)"
      have fm: "float_mul_int x 255 = (q, - int M)"
        using False by (simp add: y q_def sh_def[symmetric] eN M)
      have r: "np_round (float_mul_int x 255) = round_half_even q (2 ^ M)"
        using M(2) by (simp add: fm np_round_neg_exponent)
      have "p \<le> (255 * 2 ^ M) * 2 ^ sh"
        using pN by (simp add: M(1) power_add)
      then have qle: "q \<le> 255 * 2 ^ M"
        unfolding q_def by (intro round_half_even_le) simp_all
      have q0: "0 \<le> q"
        unfolding q_def using p0 by (intro round_half_even_nonneg) simp_all
      have "round_half_even q (2 ^ M) \<le> 255"
        using qle by (intro round_half_even_le) simp_all
      moreover have "0 \<le> round_half_even q (2 ^ M)"
        using q0 by (intro round_half_even_nonneg) simp_all
      ultimately show ?thesis unfolding r by simp
    qed
  qed
qed

lemma np_round_nearest:
  "\<bar>of_int (np_round y) - float_value y\<bar> \<le> 1 / 2"
proof -
  obtain m e where y: "y = (m, e)" by (cases y)
  show ?thesis
  proof (cases "0 \<le> e")
    case True
    then show ?thesis by (simp add: y np_round_def float_value_def)
  next
    case False
    define d :: int where "d = 2 ^ nat (- e)"
    define c where "c = round_half_even m d"
    have d0: "0 < d" by (simp add: d_def)
    have "\<bar>2 * (c * d - m)\<bar> \<le> d"
      unfolding c_def using d0 by (rule round_half_even_near)
    then have "\<bar>2 * (real_of_int c * real_of_int d - real_of_int m)\<bar> \<le> real_of_int d"
      by (metis of_int_abs of_int_diff of_int_le_iff of_int_mult of_int_numeral)
    moreover define t where "t = real_of_int c * real_of_int d - real_of_int m"
    ultimately have "\<bar>2 * t\<bar> \<le> real_of_int d" by simp
    then have "2 * \<bar>t\<bar> \<le> real_of_int d" by (simp add: abs_mult)
    then have "\<bar>t\<bar> / real_of_int d \<le> 1 / 2"
      using d0 by (simp add: divide_le_eq)
    moreover have "\<bar>t\<bar> / real_of_int d = \<bar>t / real_of_int d\<bar>"
      using d0 by simp
    moreover have "t / real_of_int d = real_of_int c - real_of_int m / real_of_int d"
      using d0 by (simp add: t_def diff_divide_distrib)
    ultimately have "\<bar>real_of_int c - real_of_int m / real_of_int d\<bar> \<le> 1 / 2" by simp
    moreover have "np_round y = c" using False by (simp add: y np_round_def c_def d_def)
    moreover have "float_value y = real_of_int m / real_of_int d"
      using False by (simp add: y float_value_def d_def)
    ultimately show ?thesis by simp
  qed
qed

lemma float_value_powr:
  "float_value (m, e) = real_of_int m * 2 powr real_of_int e"
proof (cases "0 \<le> e")
  case True
  then have "real_of_int e = real (nat e)" by simp
  then have "2 powr real_of_int e = (2 :: real) ^ nat e"
    by (simp only: powr_realpow zero_less_numeral)
  with True show ?thesis by (simp add: float_value_def)
next
  case False
  then have "real_of_int e = - real (nat (- e))" by simp
  then have "2 powr real_of_int e = inverse ((2 :: real) ^ nat (- e))"
    by (simp only: powr_minus powr_realpow zero_less_numeral)
  with False show ?thesis by (simp add: float_value_def divide_inverse)
qed

lemma float_mul_int_error:
  "\<bar>float_value (float_mul_int x k) - float_value x * real_of_int k\<bar>
     \<le> \<bar>float_value x * real_of_int k\<bar> / 2 ^ 53"
proof -
  obtain m e where x: "x = (m, e)" by (cases x)
  define p where "p = m * k"
  define b where "b = bit_length (nat \<bar>p\<bar>)"
  have y: "float_mul_int x k =
      (if b \<le> 53 then (p, e) else (round_half_even p (2 ^ (b - 53)), e + int (b - 53)))"
    by (simp add: float_mul_int_def x Let_def p_def b_def)
  have exact: "float_value x * real_of_int k = real_of_int p * 2 powr real_of_int e"
    by (simp add: x float_value_powr p_def)
  show ?thesis
  proof (cases "b \<le> 53")
    case True
    then have "float_value (float_mul_int x k) = real_of_int p * 2 powr real_of_int e"
      by (simp add: y float_value_powr)
    then show ?thesis by (simp add: exact)
  next
    case False
    define sh where "sh = b - 53"
    define q where "q = round_half_even p (2 ^ sh)"
    have b: "b = sh + 53" using False by (simp add: sh_def)
    have "nat \<bar>p\<bar> \<noteq> 0"
    proof
      assume "nat \<bar>p\<bar> = 0"
      then have "b = 0" by (simp add: b_def bit_length.simps)
      with False show False by simp
    qed
    then have "(2 :: nat) ^ (b - 1) \<le> nat \<bar>p\<bar>"
      unfolding b_def by (rule bit_length_lower)
    moreover have "b - 1 = sh + 52" by (simp add: b)
    ultimately have "(2 :: nat) ^ (sh + 52) \<le> nat \<bar>p\<bar>"
      by (simp only:)
    then have "int ((2 :: nat) ^ (sh + 52)) \<le> int (nat \<bar>p\<bar>)"
      by (simp only: of_nat_le_iff)
    then have big: "(2 :: int) ^ sh * 2 ^ 52 \<le> \<bar>p\<bar>"
      by (simp add: power_add)
    define t where "t = q * 2 ^ sh - p"
    have near: "\<bar>2 * t\<bar> \<le> 2 ^ sh"
      unfolding t_def q_def by (rule round_half_even_near) simp
    have "\<bar>t\<bar> * 2 ^ 53 = \<bar>2 * t\<bar> * 2 ^ 52"
      by (simp add: abs_mult)
    also have "\<dots> \<le> 2 ^ sh * 2 ^ 52"
      using near by (intro mult_right_mono) simp_all
    also have "\<dots> \<le> \<bar>p\<bar>" by (rule big)
    finally have "real_of_int (\<bar>t\<bar> * 2 ^ 53) \<le> real_of_int \<bar>p\<bar>"
      by (simp only: of_int_le_iff)
    then have "\<bar>real_of_int t\<bar> \<le> \<bar>real_of_int p\<bar> / 2 ^ 53"
      by (simp add: le_divide_eq)
    moreover have "real_of_int t = real_of_int q * 2 ^ sh - real_of_int p"
      by (simp add: t_def)
    ultimately have int_bound:
      "\<bar>real_of_int q * 2 ^ sh - real_of_int p\<bar> \<le> \<bar>real_of_int p\<bar> / 2 ^ 53"
      by simp
    define s where "s = 2 powr real_of_int e"
    have s0: "0 < s" by (simp add: s_def)
    have "float_value (float_mul_int x k) = real_of_int q * 2 powr real_of_int (e + int sh)"
      using False by (simp add: y float_value_powr q_def sh_def)
    also have "2 powr real_of_int (e + int sh) = 2 ^ sh * s"
      by (simp add: s_def powr_add powr_realpow)
    finally have fv: "float_value (float_mul_int x k) = real_of_int q * 2 ^ sh * s" by simp
    have "\<bar>float_value (float_mul_int x k) - float_value x * real_of_int k\<bar> =
        \<bar>(real_of_int q * 2 ^ sh - real_of_int p) * s\<bar>"
      unfolding fv exact by (simp add: s_def algebra_simps)
    also have "\<dots> = \<bar>real_of_int q * 2 ^ sh - real_of_int p\<bar> * s"
      using s0 by (simp add: abs_mult)
    also have "\<dots> \<le> \<bar>real_of_int p\<bar> / 2 ^ 53 * s"
      using int_bound s0 by (intro mult_right_mono) simp_all
    also have "\<dots> = \<bar>float_value x * real_of_int k\<bar> / 2 ^ 53"
      using s0 by (simp add: exact s_def abs_mult)
    finally show ?thesis .
  qed
qed

lemma hex_digits_small:
  assumes "n < 16"
  shows "hex_digits n = [hexchar n]"
  using assms by (simp add: hex_digits.simps)

lemma hex_digits_byte:
  assumes "16 \<le> n" "n < 256"
  shows "hex_digits n = [hexchar (n div 16), hexchar (n mod 16)]"
proof -
  have "n div 16 < 16" using assms(2) by simp
  then have "hex_digits (n div 16) = [hexchar (n div 16)]" by (rule hex_digits_small)
  then show ?thesis using assms(1) by (subst hex_digits.simps) simp
qed

lemma format_02x_byte:
  assumes "0 \<le> n" "n \<le> 255"
  shows "format_02x n = spec_hex2 n"
proof (cases "nat n < 16")
  case True
  then have "nat n div 16 = 0" "nat n mod 16 = nat n" by simp_all
  moreover have "hexchar 0 = CHR ''0''" by (simp add: hexchar_def)
  ultimately show ?thesis
    using assms True by (simp add: format_02x_def spec_hex2_def hex_digits_small)
next
  case False
  then have "hex_digits (nat n) = [hexchar (nat n div 16), hexchar (nat n mod 16)]"
    using assms by (intro hex_digits_byte) linarith+
  then show ?thesis
    using assms by (simp add: format_02x_def spec_hex2_def)
qed

lemma take_3:
  assumes "3 \<le> length xs"
  shows "take 3 xs = [xs ! 0, xs ! 1, xs ! 2]"
proof -
  from assms obtain a b c ys where "xs = a # b # c # ys"
    by (metis Suc_le_length_iff numeral_3_eq_3)
  then show ?thesis by simp
qed

lemma all_less_three:
  "(\<forall>k < (3 :: nat). P k) = (P 0 \<and> P 1 \<and> P 2)"
  by (auto simp: less_Suc_eq numeral_3_eq_3 numeral_2_eq_2)

section \<open>Claims\<close>

text \<open>
  Claim C1. For a process registry, a list of possible inputs, an inputs vector \<open>I\<close> and a
  square flow matrix \<open>F\<close> whose lengths are aligned (as many possible inputs as entries
  of \<open>I\<close>, as many processes as rows of \<open>F\<close>), \<^verbatim>\<open>inputs_flows_as_dataframe\<close> returns
  the dataframe whose records are, first, \<open>(''inputs'', possible_inputs[i], ''?'', I[i])\<close>
  for each \<open>i\<close> with \<open>I[i] > 0\<close> in increasing \<open>i\<close>, then
  \<open>(process_ids[i], process_ids[j], ''?'', F[i,j])\<close> for each cell with \<open>F[i,j] > 0\<close> in
  row-major order, \<open>process_ids\<close> being the keys of the registry in iteration order. The
  material of every record is the placeholder.
\<close>

theorem inputs_flows_as_dataframe_emits_spec:
  assumes "length possible_inputs = length I" and "square F" and "length processes = length F"
  shows "inputs_flows_as_dataframe processes possible_inputs I F =
     Inr \<lparr>columns = [''source'', ''target'', ''material'', ''value''],
          records = spec_input_edges possible_inputs I @ spec_matrix_edges (keys processes) F\<rparr>
     \<and> list_all (\<lambda>(src, tgt, material, v). material = ''?'')
          (spec_input_edges possible_inputs I @ spec_matrix_edges (keys processes) F)"
proof -
  have "length (keys processes) = length F"
    using assms(3) by (simp add: keys_def)
  then have "inputs_flows_as_dataframe processes possible_inputs I F =
     Inr (from_records (spec_input_edges possible_inputs I @ spec_matrix_edges (keys processes) F)
       [''source'', ''target'', ''material'', ''value''])"
    using assms(1,2)
    by (simp add: inputs_flows_as_dataframe_def Let_def inputs_loop_emits matrix_loop_emits)
  then show ?thesis
    using spec_edges_material[of possible_inputs I "keys processes" F]
    by (simp add: from_records_def)
qed

theorem inputs_flows_as_dataframe_emits_spec_witness:
  "length [''a'', ''b''] = length [0, 3 :: int] \<and> square [[1, 0], [4, - 2 :: int]] \<and>
   length [(''P'', ()), (''Q'', ())] = length [[1, 0], [4, - 2 :: int]] \<and>
   inputs_flows_as_dataframe [(''P'', ()), (''Q'', ())] [''a'', ''b''] [0, 3 :: int]
       [[1, 0], [4, - 2]] =
     Inr \<lparr>columns = [''source'', ''target'', ''material'', ''value''],
          records = [(''inputs'', ''b'', ''?'', 3), (''P'', ''P'', ''?'', 1), (''Q'', ''P'', ''?'', 4)]\<rparr>"
proof -
  have sq: "square [[1, 0], [4, - 2 :: int]]"
    by (simp add: square_def)
  have "spec_input_edges [''a'', ''b''] [0, 3 :: int] = [(''inputs'', ''b'', ''?'', 3)]"
    by (simp add: spec_input_edges_def upt_rec)
  moreover have "spec_matrix_edges (keys [(''P'', ()), (''Q'', ())]) [[1, 0], [4, - 2 :: int]] =
      [(''P'', ''P'', ''?'', 1), (''Q'', ''P'', ''?'', 4)]"
    by (simp add: spec_matrix_edges_def keys_def upt_rec)
  ultimately show ?thesis
    using sq inputs_flows_as_dataframe_emits_spec
      [of "[''a'', ''b'']" "[0, 3 :: int]" "[[1, 0], [4, - 2]]" "[(''P'', ()), (''Q'', ())]"]
    by simp
qed

text \<open>
  Claim C2. Entries that are zero or negative produce no record: every record of the
  dataframe returned by \<^verbatim>\<open>inputs_flows_as_dataframe\<close> has a strictly positive value,
  which is an entry of the inputs vector or a cell of the matrix; and every record of the
  dataframe returned by \<^verbatim>\<open>flows_from_trace\<close> has a strictly positive value.
\<close>

theorem positive_entries_only:
  "(inputs_flows_as_dataframe processes possible_inputs I F = Inr df \<longrightarrow>
      (\<forall>r \<in> set (records df). 0 < edge_value r \<and>
         ((\<exists>i < length I. edge_value r = I ! i) \<or>
          (\<exists>i < length F. \<exists>j < length F. edge_value r = F ! i ! j)))) \<and>
   (flows_from_trace processes possible_inputs trace nburn thin = Inr sdf \<longrightarrow>
      (\<forall>r \<in> set (records sdf). 0 < sample_value r))"
proof (intro conjI impI ballI)
  fix r
  assume ok: "inputs_flows_as_dataframe processes possible_inputs I F = Inr df"
    and r: "r \<in> set (records df)"
  from r inputs_flows_as_dataframe_records[OF ok]
  have cases: "r \<in> set (spec_input_edges possible_inputs I) \<or>
      r \<in> set (spec_matrix_edges (keys processes) F)"
    by (simp add: from_records_def)
  then show "0 < edge_value r"
    using spec_input_edges_origin spec_matrix_edges_origin by blast
  from cases
  show "(\<exists>i < length I. edge_value r = I ! i) \<or>
          (\<exists>i < length F. \<exists>j < length F. edge_value r = F ! i ! j)"
    using spec_input_edges_origin[of r possible_inputs I]
      spec_matrix_edges_origin[of r "keys processes" F] by blast
next
  fix r
  assume ok: "flows_from_trace processes possible_inputs trace nburn thin = Inr sdf"
    and r: "r \<in> set (records sdf)"
  from flows_from_trace_records[OF ok] obtain inputs flows where
    "records sdf = concat (map (\<lambda>i. spec_sample_input_rows possible_inputs inputs i @
        spec_sample_matrix_rows (keys processes) flows i) [0..<length flows])"
    by (auto simp: from_records_def)
  with r obtain i where
    "r \<in> set (spec_sample_input_rows possible_inputs inputs i) \<or>
     r \<in> set (spec_sample_matrix_rows (keys processes) flows i)"
    by auto
  then show "0 < sample_value r"
    using sample_of_input_rows sample_of_matrix_rows by blast
qed

theorem positive_entries_only_witness:
  "inputs_flows_as_dataframe [(''P'', ()), (''Q'', ())] [''a'', ''b''] [0, 3 :: int]
       [[1, 0], [4, - 2]] =
     Inr \<lparr>columns = [''source'', ''target'', ''material'', ''value''],
          records = [(''inputs'', ''b'', ''?'', 3), (''P'', ''P'', ''?'', 1), (''Q'', ''P'', ''?'', 4)]\<rparr> \<and>
   list_all (\<lambda>r. 0 < edge_value r)
     [(''inputs'', ''b'', ''?'', 3 :: int), (''P'', ''P'', ''?'', 1), (''Q'', ''P'', ''?'', 4)] \<and>
   flows_from_trace [(''P'', ()), (''Q'', ())] [''a'', ''b'']
     [\<lparr>var_inputs = [[1, 0], [0, - 1], [0, 2 :: int]],
       var_F = [[[0, 1], [0, 0]], [[0, 0], [0, 0]], [[- 4, 0], [5, 0]]]\<rparr>,
      \<lparr>var_inputs = [[0, 0], [9, 9], [3, 0]],
       var_F = [[[0, 0], [0, 6]], [[9, 9], [9, 9]], [[0, 0], [0, 0]]]\<rparr>] 0 2 =
     Inr \<lparr>columns = [''source'', ''target'', ''material'', ''sample'', ''value''],
          records = [(''inputs'', ''a'', ''?'', 0, 1), (''P'', ''Q'', ''?'', 0, 1),
                     (''inputs'', ''b'', ''?'', 1, 2), (''Q'', ''P'', ''?'', 1, 5),
                     (''Q'', ''Q'', ''?'', 2, 6), (''inputs'', ''a'', ''?'', 3, 3)]\<rparr> \<and>
   list_all (\<lambda>r. 0 < sample_value r)
     [(''inputs'', ''a'', ''?'', 0 :: nat, 1 :: int), (''P'', ''Q'', ''?'', 0, 1),
      (''inputs'', ''b'', ''?'', 1, 2), (''Q'', ''P'', ''?'', 1, 5),
      (''Q'', ''Q'', ''?'', 2, 6), (''inputs'', ''a'', ''?'', 3, 3)]"
proof -
  let ?trace = "[\<lparr>var_inputs = [[1, 0], [0, - 1], [0, 2 :: int]],
       var_F = [[[0, 1], [0, 0]], [[0, 0], [0, 0]], [[- 4, 0], [5, 0]]]\<rparr>,
      \<lparr>var_inputs = [[0, 0], [9, 9], [3, 0]],
       var_F = [[[0, 0], [0, 6]], [[9, 9], [9, 9]], [[0, 0], [0, 0]]]\<rparr>]"
  let ?edges = "[(''inputs'', ''b'', ''?'', 3 :: int), (''P'', ''P'', ''?'', 1),
      (''Q'', ''P'', ''?'', 4)]"
  let ?rows = "[(''inputs'', ''a'', ''?'', 0 :: nat, 1 :: int), (''P'', ''Q'', ''?'', 0, 1),
      (''inputs'', ''b'', ''?'', 1, 2), (''Q'', ''P'', ''?'', 1, 5),
      (''Q'', ''Q'', ''?'', 2, 6), (''inputs'', ''a'', ''?'', 3, 3)]"
  let ?df = "\<lparr>columns = [''source'', ''target'', ''material'', ''value''],
      records = ?edges\<rparr>"
  let ?sdf = "\<lparr>columns = [''source'', ''target'', ''material'', ''sample'', ''value''],
      records = ?rows\<rparr>"
  have e1: "inputs_flows_as_dataframe [(''P'', ()), (''Q'', ())] [''a'', ''b''] [0, 3 :: int]
       [[1, 0], [4, - 2]] = Inr ?df"
    by code_simp
  have e2: "flows_from_trace [(''P'', ()), (''Q'', ())] [''a'', ''b''] ?trace 0 2 = Inr ?sdf"
    by code_simp
  note t = positive_entries_only
      [where processes = "[(''P'', ()), (''Q'', ())]" and possible_inputs = "[''a'', ''b'']"
         and I = "[0, 3 :: int]" and F = "[[1, 0], [4, - 2]]" and df = ?df
         and trace = ?trace and nburn = 0 and thin = 2 and sdf = ?sdf]
  have r1: "records ?df = ?edges" and r2: "records ?sdf = ?rows" by simp_all
  have "0 < edge_value x" if "x \<in> set ?edges" for x
    using t[THEN conjunct1, rule_format, OF e1, unfolded r1, OF that] by (rule conjunct1)
  then have l1: "list_all (\<lambda>r. 0 < edge_value r) ?edges"
    unfolding list_all_iff by blast
  have "0 < sample_value x" if "x \<in> set ?rows" for x
    using t[THEN conjunct2, rule_format, OF e2, unfolded r2, OF that] .
  then have l2: "list_all (\<lambda>r. 0 < sample_value r) ?rows"
    unfolding list_all_iff by blast
  show ?thesis
    by (intro conjI) (rule e1, rule l1, rule e2, rule l2)
qed

text \<open>
  Claim C3. For a square flow matrix, the records that \<^verbatim>\<open>inputs_flows_as_dataframe\<close>
  emits after the input-derived ones (which are the first as many records as the inputs
  vector has positive entries) are as many as the matrix has strictly positive cells.
\<close>

theorem matrix_record_count:
  assumes "square F"
    and "inputs_flows_as_dataframe processes possible_inputs I F = Inr df"
  shows "take (length (filter (\<lambda>v. 0 < v) I)) (records df) = spec_input_edges possible_inputs I \<and>
     length (drop (length (filter (\<lambda>v. 0 < v) I)) (records df)) = positive_cells F"
proof -
  have "records df = spec_input_edges possible_inputs I @ spec_matrix_edges (keys processes) F"
    using inputs_flows_as_dataframe_records[OF assms(2)] by (simp add: from_records_def)
  then show ?thesis
    using length_spec_input_edges[of possible_inputs I]
      length_spec_matrix_edges[OF assms(1), of "keys processes"]
    by simp
qed

theorem matrix_record_count_witness:
  "square [[1, 0], [4, - 2 :: int]] \<and>
   take 1 [(''inputs'', ''b'', ''?'', 3 :: int), (''P'', ''P'', ''?'', 1), (''Q'', ''P'', ''?'', 4)] =
     spec_input_edges [''a'', ''b''] [0, 3] \<and>
   length (drop 1 [(''inputs'', ''b'', ''?'', 3 :: int), (''P'', ''P'', ''?'', 1), (''Q'', ''P'', ''?'', 4)]) =
     positive_cells [[1, 0], [4, - 2 :: int]] \<and>
   positive_cells [[1, 0], [4, - 2 :: int]] = 2"
proof -
  have sq: "square [[1, 0], [4, - 2 :: int]]"
    by (simp add: square_def)
  have e: "inputs_flows_as_dataframe [(''P'', ()), (''Q'', ())] [''a'', ''b''] [0, 3 :: int]
       [[1, 0], [4, - 2]] =
     Inr \<lparr>columns = [''source'', ''target'', ''material'', ''value''],
          records = [(''inputs'', ''b'', ''?'', 3), (''P'', ''P'', ''?'', 1), (''Q'', ''P'', ''?'', 4)]\<rparr>"
    by (simp add: inputs_flows_as_dataframe_def py_range_def keys_def from_records_def
        inputs_body_def cell_body_def getitem_def getitem2_def upt_rec)
  have p: "positive_cells [[1, 0], [4, - 2 :: int]] = 2"
    by (simp add: positive_cells_def)
  show ?thesis
    using matrix_record_count[OF sq e] sq p by simp
qed

text \<open>
  Claim C4. \<^verbatim>\<open>flows_from_trace\<close> iterates over exactly the burn-in/thinning-adjusted
  samples \<^verbatim>\<open>trace[name, nburn::thin]\<close>: the samples of every chain sliced with
  \<^verbatim>\<open>[nburn::thin]\<close>, chain after chain. When it returns, the trace has a chain and
  \<open>thin\<close> is not zero; the two arrays it reads are these samples of \<^verbatim>\<open>inputs\<close> and of
  \<^verbatim>\<open>F\<close>; and its records are, for every position of these samples in increasing order
  and for no other, the records of the sample at that position. So every record carries
  in its \<open>sample\<close> field a position that is valid in the adjusted samples, and is one of
  the records of the sample at that position.
\<close>

theorem flows_from_trace_sample_index:
  assumes "flows_from_trace processes possible_inputs trace nburn thin = Inr df"
  shows "trace \<noteq> [] \<and> thin \<noteq> 0 \<and>
     (let inputs = spec_trace_slice var_inputs trace nburn thin;
          flows = spec_trace_slice var_F trace nburn thin;
          rows = (\<lambda>i. spec_sample_input_rows possible_inputs inputs i @
                       spec_sample_matrix_rows (keys processes) flows i)
      in get_values var_inputs trace nburn thin = Inr inputs \<and>
         get_values var_F trace nburn thin = Inr flows \<and>
         records df = concat (map rows [0..<length flows]) \<and>
         (\<forall>r \<in> set (records df). sample_of r < length flows \<and> r \<in> set (rows (sample_of r))))"
proof -
  let ?inputs = "spec_trace_slice var_inputs trace nburn thin"
  let ?flows = "spec_trace_slice var_F trace nburn thin"
  let ?rows = "\<lambda>i. spec_sample_input_rows possible_inputs ?inputs i @
                       spec_sample_matrix_rows (keys processes) ?flows i"
  from flows_from_trace_rows[OF assms] have ok: "trace \<noteq> []" "thin \<noteq> 0"
    and d: "records df = concat (map ?rows [0..<length ?flows])"
    by simp_all
  have g: "get_values var_inputs trace nburn thin = Inr ?inputs"
    "get_values var_F trace nburn thin = Inr ?flows"
    using ok by (simp_all add: get_values_spec)
  have rows: "sample_of r < length ?flows \<and> r \<in> set (?rows (sample_of r))"
    if "r \<in> set (records df)" for r
  proof -
    from that d obtain s where s: "s < length ?flows" and r: "r \<in> set (?rows s)"
      by auto
    from sample_rows_tagged[OF r] have "sample_of r = s" .
    with s r show ?thesis by simp
  qed
  show ?thesis
    unfolding Let_def
  proof (intro conjI ballI)
    show "trace \<noteq> []" by (rule ok)
    show "thin \<noteq> 0" by (rule ok)
    show "get_values var_inputs trace nburn thin = Inr ?inputs" by (rule g)
    show "get_values var_F trace nburn thin = Inr ?flows" by (rule g)
    show "records df = concat (map ?rows [0..<length ?flows])" by (rule d)
  next
    fix r assume "r \<in> set (records df)"
    from rows[OF this] show "sample_of r < length ?flows" ..
  next
    fix r assume "r \<in> set (records df)"
    from rows[OF this] show "r \<in> set (?rows (sample_of r))" ..
  qed
qed

theorem flows_from_trace_sample_index_witness:
  "flows_from_trace [(''P'', ()), (''Q'', ())] [''a'', ''b'']
     [\<lparr>var_inputs = [[1, 0], [0, - 1], [0, 2 :: int]],
       var_F = [[[0, 1], [0, 0]], [[0, 0], [0, 0]], [[- 4, 0], [5, 0]]]\<rparr>,
      \<lparr>var_inputs = [[0, 0], [9, 9], [3, 0]],
       var_F = [[[0, 0], [0, 6]], [[9, 9], [9, 9]], [[0, 0], [0, 0]]]\<rparr>] (- 1) (- 2) =
     Inr \<lparr>columns = [''source'', ''target'', ''material'', ''sample'', ''value''],
          records = [(''inputs'', ''b'', ''?'', 0, 2), (''Q'', ''P'', ''?'', 0, 5),
                     (''inputs'', ''a'', ''?'', 1, 1), (''P'', ''Q'', ''?'', 1, 1),
                     (''inputs'', ''a'', ''?'', 2, 3), (''Q'', ''Q'', ''?'', 3, 6)]\<rparr> \<and>
   spec_trace_slice var_F
     [\<lparr>var_inputs = [[1, 0], [0, - 1], [0, 2 :: int]],
       var_F = [[[0, 1], [0, 0]], [[0, 0], [0, 0]], [[- 4, 0], [5, 0]]]\<rparr>,
      \<lparr>var_inputs = [[0, 0], [9, 9], [3, 0]],
       var_F = [[[0, 0], [0, 6]], [[9, 9], [9, 9]], [[0, 0], [0, 0]]]\<rparr>] (- 1) (- 2) =
     [[[- 4, 0], [5, 0]], [[0, 1], [0, 0]], [[0, 0], [0, 0]], [[0, 0], [0, 6]]] \<and>
   list_all (\<lambda>r. sample_of r < 4)
     [(''inputs'', ''b'', ''?'', 0 :: nat, 2 :: int), (''Q'', ''P'', ''?'', 0, 5),
      (''inputs'', ''a'', ''?'', 1, 1), (''P'', ''Q'', ''?'', 1, 1),
      (''inputs'', ''a'', ''?'', 2, 3), (''Q'', ''Q'', ''?'', 3, 6)]"
proof -
  let ?trace = "[\<lparr>var_inputs = [[1, 0], [0, - 1], [0, 2 :: int]],
       var_F = [[[0, 1], [0, 0]], [[0, 0], [0, 0]], [[- 4, 0], [5, 0]]]\<rparr>,
      \<lparr>var_inputs = [[0, 0], [9, 9], [3, 0]],
       var_F = [[[0, 0], [0, 6]], [[9, 9], [9, 9]], [[0, 0], [0, 0]]]\<rparr>]"
  let ?rows = "[(''inputs'', ''b'', ''?'', 0 :: nat, 2 :: int), (''Q'', ''P'', ''?'', 0, 5),
      (''inputs'', ''a'', ''?'', 1, 1), (''P'', ''Q'', ''?'', 1, 1),
      (''inputs'', ''a'', ''?'', 2, 3), (''Q'', ''Q'', ''?'', 3, 6)]"
  have e: "flows_from_trace [(''P'', ()), (''Q'', ())] [''a'', ''b''] ?trace (- 1) (- 2) =
     Inr \<lparr>columns = [''source'', ''target'', ''material'', ''sample'', ''value''],
          records = ?rows\<rparr>"
    by code_simp
  have s: "spec_trace_slice var_F ?trace (- 1) (- 2) =
     [[[- 4, 0], [5, 0]], [[0, 1], [0, 0]], [[0, 0], [0, 0]], [[0, 0], [0, 6]]]"
    by code_simp
  have g: "length (spec_trace_slice var_F ?trace (- 1) (- 2)) = 4"
    by code_simp
  note t = flows_from_trace_sample_index[OF e, unfolded Let_def]
  note b = t[THEN conjunct2, THEN conjunct2, THEN conjunct2, THEN conjunct2, THEN conjunct2]
  have r: "records \<lparr>columns = [''source'', ''target'', ''material'', ''sample'', ''value''],
          records = ?rows\<rparr> = ?rows" by simp
  have "sample_of x < 4" if "x \<in> set ?rows" for x
    using b[unfolded r g, rule_format, OF that] by (rule conjunct1)
  then have l: "list_all (\<lambda>r. sample_of r < 4) ?rows"
    unfolding list_all_iff by blast
  show ?thesis
    by (intro conjI) (rule e, rule s, rule l)
qed

text \<open>
  Claim C5. On the registry \<open>{A, B}\<close>, the possible inputs \<open>[x, y]\<close>, the inputs vector
  \<open>[5, 0]\<close> and the matrix \<open>[[0, 2], [0, 0]]\<close>, \<^verbatim>\<open>inputs_flows_as_dataframe\<close> returns
  exactly the records \<open>(inputs, x, ?, 5)\<close> and \<open>(A, B, ?, 2)\<close>, in that order.
\<close>

theorem example_registry_A_B:
  "inputs_flows_as_dataframe [(''A'', ()), (''B'', ())] [''x'', ''y''] [5, 0 :: int]
     [[0, 2], [0, 0]] =
   Inr \<lparr>columns = [''source'', ''target'', ''material'', ''value''],
        records = [(''inputs'', ''x'', ''?'', 5), (''A'', ''B'', ''?'', 2)]\<rparr>"
  by (simp add: inputs_flows_as_dataframe_def py_range_def keys_def from_records_def
      inputs_body_def cell_body_def getitem_def getitem2_def upt_rec)

text \<open>
  Claim C6. For a measures mapping whose \<open>value\<close> samples have a nonzero mean,
  \<^verbatim>\<open>NormalisedHPDRangeScale.get_value\<close> returns what
  \<^verbatim>\<open>AbsoluteHPDRangeScale.get_value\<close> returns, divided by that mean (and raises what it
  raises); the absolute variant is \<^verbatim>\<open>hpd_range\<close> of the \<open>value\<close> samples. The link
  plays no part.
\<close>

theorem normalised_is_absolute_over_mean:
  assumes "measures_dict ''value'' = Some v" and "np_mean v = Some m" and "m \<noteq> 0"
  shows "NormalisedHPDRangeScale_get_value hpd link measures_dict =
       (case AbsoluteHPDRangeScale_get_value hpd link measures_dict of
          Inl e \<Rightarrow> Inl e
        | Inr a \<Rightarrow> Inr (Some (a / m))) \<and>
     AbsoluteHPDRangeScale_get_value hpd link measures_dict = hpd_range hpd v"
  using assms
  by (simp add: NormalisedHPDRangeScale_get_value_def AbsoluteHPDRangeScale_get_value_def
      dict_getitem_def np_divide_def split: sum.splits)

theorem normalised_is_absolute_over_mean_witness:
  "[''value'' \<mapsto> [2, 4 :: real]] ''value'' = Some [2, 4] \<and> np_mean [2, 4] = Some 3 \<and>
   (3 :: real) \<noteq> 0 \<and>
   AbsoluteHPDRangeScale_get_value (\<lambda>x. Inr [1, 4]) () [''value'' \<mapsto> [2, 4]] = Inr 3 \<and>
   NormalisedHPDRangeScale_get_value (\<lambda>x. Inr [1, 4]) () [''value'' \<mapsto> [2, 4]] = Inr (Some 1)"
proof -
  have d: "[''value'' \<mapsto> [2, 4 :: real]] ''value'' = Some [2, 4]" by simp
  have m: "np_mean [2, 4] = Some 3" by (simp add: np_mean_def)
  have a: "AbsoluteHPDRangeScale_get_value (\<lambda>x. Inr [1, 4]) () [''value'' \<mapsto> [2, 4]] = Inr 3"
    by (simp add: AbsoluteHPDRangeScale_get_value_def dict_getitem_def hpd_range_def getitem_def)
  show ?thesis
    using normalised_is_absolute_over_mean
      [where measures_dict = "[''value'' \<mapsto> [2, 4]]" and v = "[2, 4]" and m = 3
         and hpd = "\<lambda>x. Inr [1, 4]" and link = "()"] d m a
    by simp
qed

text \<open>
  Claim C7. \<^verbatim>\<open>play\<close> never raises \<^verbatim>\<open>KeyboardInterrupt\<close>. When the loop body raises
  an exception in some iteration, the iterations before it having completed,
  \<^verbatim>\<open>play\<close> returns normally if the exception is \<^verbatim>\<open>KeyboardInterrupt\<close>, with the
  widget as the interrupted call left it and no further iteration; any other exception
  leaves \<^verbatim>\<open>play\<close> unhandled.
\<close>

theorem play_catches_KeyboardInterrupt:
  "fst (play update set_scale sleep rescale n w) \<noteq> Some KeyboardInterrupt \<and>
   (k < length (py_range_step n 10) \<and>
    for_loop_st (take k (py_range_step n 10)) (play_body update set_scale sleep rescale) w
      = (None, w1) \<and>
    play_body update set_scale sleep rescale (py_range_step n 10 ! k) w1 = (Some e, w2)
    \<longrightarrow> play update set_scale sleep rescale n w =
          (if e = KeyboardInterrupt then (None, w2) else (Some e, w2)))"
proof (intro conjI impI)
  show "fst (play update set_scale sleep rescale n w) \<noteq> Some KeyboardInterrupt"
    by (simp add: play_def split: prod.splits)
next
  assume a: "k < length (py_range_step n 10) \<and>
    for_loop_st (take k (py_range_step n 10)) (play_body update set_scale sleep rescale) w
      = (None, w1) \<and>
    play_body update set_scale sleep rescale (py_range_step n 10 ! k) w1 = (Some e, w2)"
  then have "for_loop_st (py_range_step n 10) (play_body update set_scale sleep rescale) w
      = (Some e, w2)"
    by (intro for_loop_st_raises[where k = k and ?w1.0 = w1]) simp_all
  then show "play update set_scale sleep rescale n w =
          (if e = KeyboardInterrupt then (None, w2) else (Some e, w2))"
    by (simp add: play_def)
qed

theorem play_catches_KeyboardInterrupt_witness:
  "py_range_step 35 10 = [0, 10, 20, 30] \<and>
   play_body (\<lambda>i w. (None, w + 1)) skip
       (\<lambda>w. if w = 2 then (Some KeyboardInterrupt, w) else (None, w)) False 10 (1 :: nat) =
     (Some KeyboardInterrupt, 2) \<and>
   play (\<lambda>i w. (None, w + 1)) skip
       (\<lambda>w. if w = 2 then (Some KeyboardInterrupt, w) else (None, w)) False 35 (0 :: nat) =
     (None, 2)"
proof -
  let ?update = "\<lambda>(i :: nat) (w :: nat). (None :: py_error option, w + 1)"
  let ?sleep = "\<lambda>w :: nat. if w = 2 then (Some KeyboardInterrupt, w) else (None, w)"
  have r: "py_range_step 35 10 = [0, 10, 20, 30]"
    by (simp add: py_range_step_def upt_rec)
  have first: "for_loop_st (take 1 (py_range_step 35 10)) (play_body ?update skip ?sleep False) 0
      = (None, 1)"
    by (simp add: r play_body_def seq_def skip_def)
  have second: "play_body ?update skip ?sleep False (py_range_step 35 10 ! 1) 1
      = (Some KeyboardInterrupt, 2)"
    by (simp add: r play_body_def seq_def skip_def)
  have "play ?update skip ?sleep False 35 0 = (None, 2)"
    using play_catches_KeyboardInterrupt
      [where update = ?update and set_scale = skip and sleep = ?sleep and rescale = False
         and n = 35 and w = 0 and k = 1 and ?w1.0 = 1 and e = KeyboardInterrupt and ?w2.0 = 2]
      first second
    by (simp add: r)
  with r second show ?thesis by simp
qed

text \<open>
  Claim C8. Whenever the call of \<^verbatim>\<open>weave_variance\<close> returns, \<^verbatim>\<open>show_variance\<close>
  raises \<^verbatim>\<open>NameError\<close>, reading the name \<^verbatim>\<open>scale\<close> that neither its local names
  nor the module's global names hold; \<^verbatim>\<open>show_variance\<close> never returns a widget.
\<close>

theorem show_variance_raises_NameError:
  "(wv = Inr (result, vlim) \<longrightarrow> show_variance wv colorbar to_widget = Inl NameError) \<and>
   (\<forall>widget. show_variance wv colorbar to_widget \<noteq> Inr widget)"
  by (auto simp: show_variance_def load_name_def show_variance_locals_def module_globals_def
      split: sum.splits prod.splits)

theorem show_variance_raises_NameError_witness:
  "show_variance (Inr ((), ())) (Inr ()) (\<lambda>r. Inr ()) = (Inl NameError :: py_error + unit)"
  using show_variance_raises_NameError[of "Inr ((), ())" "()" "()" "Inr ()" "\<lambda>r. Inr ()"]
  by simp

text \<open>
  Claim C9. In the dataframe returned by \<^verbatim>\<open>flows_from_trace\<close> the \<open>sample\<close> column is
  nondecreasing from the first row to the last, and the rows of one sample are, in the
  order of the dataframe, its input-derived records followed by its matrix-derived
  records.
\<close>

theorem flows_from_trace_sample_order:
  assumes "flows_from_trace processes possible_inputs trace nburn thin = Inr df"
  shows "sorted (map sample_of (records df)) \<and>
     (\<exists>inputs flows.
        get_values var_inputs trace nburn thin = Inr inputs \<and>
        get_values var_F trace nburn thin = Inr flows \<and>
        (\<forall>s. filter (\<lambda>r. sample_of r = s) (records df) =
           (if s < length flows
            then spec_sample_input_rows possible_inputs inputs s @
                 spec_sample_matrix_rows (keys processes) flows s
            else [])))"
proof -
  from flows_from_trace_records[OF assms] obtain inputs flows where
    i: "get_values var_inputs trace nburn thin = Inr inputs" and
    f: "get_values var_F trace nburn thin = Inr flows" and
    d: "records df = concat (map (\<lambda>i. spec_sample_input_rows possible_inputs inputs i @
        spec_sample_matrix_rows (keys processes) flows i) [0..<length flows])"
    by (auto simp: from_records_def)
  have "sorted (map sample_of (records df))"
    unfolding d by (rule sorted_concat_tagged) (rule sample_rows_tagged)
  moreover have "filter (\<lambda>r. sample_of r = s) (records df) =
           (if s < length flows
            then spec_sample_input_rows possible_inputs inputs s @
                 spec_sample_matrix_rows (keys processes) flows s
            else [])" for s
    unfolding d by (rule filter_concat_tagged) (rule sample_rows_tagged)
  ultimately show ?thesis using i f by blast
qed

theorem flows_from_trace_sample_order_witness:
  "flows_from_trace [(''P'', ()), (''Q'', ())] [''a'', ''b'']
     [\<lparr>var_inputs = [[1, 0], [0, - 1], [0, 2 :: int]],
       var_F = [[[0, 1], [0, 0]], [[0, 0], [0, 0]], [[- 4, 0], [5, 0]]]\<rparr>,
      \<lparr>var_inputs = [[0, 0], [9, 9], [3, 0]],
       var_F = [[[0, 0], [0, 6]], [[9, 9], [9, 9]], [[0, 0], [0, 0]]]\<rparr>] 0 2 =
     Inr \<lparr>columns = [''source'', ''target'', ''material'', ''sample'', ''value''],
          records = [(''inputs'', ''a'', ''?'', 0, 1), (''P'', ''Q'', ''?'', 0, 1),
                     (''inputs'', ''b'', ''?'', 1, 2), (''Q'', ''P'', ''?'', 1, 5),
                     (''Q'', ''Q'', ''?'', 2, 6), (''inputs'', ''a'', ''?'', 3, 3)]\<rparr> \<and>
   sorted (map sample_of
     [(''inputs'', ''a'', ''?'', 0 :: nat, 1 :: int), (''P'', ''Q'', ''?'', 0, 1),
      (''inputs'', ''b'', ''?'', 1, 2), (''Q'', ''P'', ''?'', 1, 5),
      (''Q'', ''Q'', ''?'', 2, 6), (''inputs'', ''a'', ''?'', 3, 3)]) \<and>
   map sample_of
     [(''inputs'', ''a'', ''?'', 0 :: nat, 1 :: int), (''P'', ''Q'', ''?'', 0, 1),
      (''inputs'', ''b'', ''?'', 1, 2), (''Q'', ''P'', ''?'', 1, 5),
      (''Q'', ''Q'', ''?'', 2, 6), (''inputs'', ''a'', ''?'', 3, 3)] = [0, 0, 1, 1, 2, 3]"
proof -
  let ?trace = "[\<lparr>var_inputs = [[1, 0], [0, - 1], [0, 2 :: int]],
       var_F = [[[0, 1], [0, 0]], [[0, 0], [0, 0]], [[- 4, 0], [5, 0]]]\<rparr>,
      \<lparr>var_inputs = [[0, 0], [9, 9], [3, 0]],
       var_F = [[[0, 0], [0, 6]], [[9, 9], [9, 9]], [[0, 0], [0, 0]]]\<rparr>]"
  let ?rows = "[(''inputs'', ''a'', ''?'', 0 :: nat, 1 :: int), (''P'', ''Q'', ''?'', 0, 1),
      (''inputs'', ''b'', ''?'', 1, 2), (''Q'', ''P'', ''?'', 1, 5),
      (''Q'', ''Q'', ''?'', 2, 6), (''inputs'', ''a'', ''?'', 3, 3)]"
  have e: "flows_from_trace [(''P'', ()), (''Q'', ())] [''a'', ''b''] ?trace 0 2 =
     Inr \<lparr>columns = [''source'', ''target'', ''material'', ''sample'', ''value''],
          records = ?rows\<rparr>"
    by code_simp
  have r: "records \<lparr>columns = [''source'', ''target'', ''material'', ''sample'', ''value''],
          records = ?rows\<rparr> = ?rows" by simp
  note t = flows_from_trace_sample_order[OF e, THEN conjunct1, unfolded r]
  have m: "map sample_of ?rows = [0, 0, 1, 1, 2, 3]"
    by (simp add: sample_of_def)
  show ?thesis
    by (intro conjI) (rule e, rule t, rule m)
qed

text \<open>
  Claim C10. For a sequence of at least three floats whose first three lie in \<open>[0, 1]\<close>,
  \<^verbatim>\<open>rgb2hex\<close> returns a string of seven characters: \<open>#\<close>, then for each of the first
  three components \<open>v\<close> the two hexadecimal digits of \<open>round(v * 255)\<close>, an integer from
  0 to 255. Here \<open>v * 255\<close> is the float product, within one part in \<open>2 ^ 53\<close> of the
  exact one, and the rounding is to the nearest integer. Further components are ignored.
\<close>

theorem rgb2hex_format:
  assumes "3 \<le> length rgb"
    and "\<forall>k < 3. is_float64 (rgb ! k) \<and> 0 \<le> float_value (rgb ! k) \<and> float_value (rgb ! k) \<le> 1"
  shows "rgb2hex rgb =
       Inr (CHR ''#'' # spec_hex2 (np_round (float_mul_int (rgb ! 0) 255)) @
            spec_hex2 (np_round (float_mul_int (rgb ! 1) 255)) @
            spec_hex2 (np_round (float_mul_int (rgb ! 2) 255))) \<and>
     (\<exists>s. rgb2hex rgb = Inr s \<and> length s = 7) \<and>
     rgb2hex rgb = rgb2hex (take 3 rgb) \<and>
     (\<forall>k < 3.
        0 \<le> np_round (float_mul_int (rgb ! k) 255) \<and>
        np_round (float_mul_int (rgb ! k) 255) \<le> 255 \<and>
        \<bar>of_int (np_round (float_mul_int (rgb ! k) 255)) -
           float_value (float_mul_int (rgb ! k) 255)\<bar> \<le> 1 / 2 \<and>
        \<bar>float_value (float_mul_int (rgb ! k) 255) - float_value (rgb ! k) * 255\<bar>
          \<le> float_value (rgb ! k) * 255 / 2 ^ 53)"
proof -
  have b: "0 \<le> np_round (float_mul_int (rgb ! k) 255) \<and>
      np_round (float_mul_int (rgb ! k) 255) \<le> 255" if "k < 3" for k
  proof -
    from assms(2) that have "0 \<le> float_value (rgb ! k)" "float_value (rgb ! k) \<le> 1"
      by simp_all
    then show ?thesis by (rule product_round_bounds)
  qed
  have f: "format_02x (np_round (float_mul_int (rgb ! k) 255)) =
      spec_hex2 (np_round (float_mul_int (rgb ! k) 255))" if "k < 3" for k
    using b[OF that] by (simp add: format_02x_byte)
  have t: "take 3 rgb = [rgb ! 0, rgb ! 1, rgb ! 2]"
    using assms(1) by (rule take_3)
  have main: "rgb2hex rgb =
       Inr (CHR ''#'' # spec_hex2 (np_round (float_mul_int (rgb ! 0) 255)) @
            spec_hex2 (np_round (float_mul_int (rgb ! 1) 255)) @
            spec_hex2 (np_round (float_mul_int (rgb ! 2) 255)))"
    by (simp add: rgb2hex_def Let_def t f)
  have len: "\<exists>s. rgb2hex rgb = Inr s \<and> length s = 7"
    unfolding main by (simp add: spec_hex2_def)
  have same: "rgb2hex rgb = rgb2hex (take 3 rgb)"
    by (simp add: rgb2hex_def)
  have e: "\<bar>float_value (float_mul_int (rgb ! k) 255) - float_value (rgb ! k) * 255\<bar>
      \<le> float_value (rgb ! k) * 255 / 2 ^ 53" if "k < 3" for k
  proof -
    from assms(2) that have "0 \<le> float_value (rgb ! k)" by simp
    then have "\<bar>float_value (rgb ! k) * real_of_int 255\<bar> = float_value (rgb ! k) * 255"
      by simp
    with float_mul_int_error[of "rgb ! k" 255] show ?thesis by simp
  qed
  have "\<forall>k < 3.
        0 \<le> np_round (float_mul_int (rgb ! k) 255) \<and>
        np_round (float_mul_int (rgb ! k) 255) \<le> 255 \<and>
        \<bar>of_int (np_round (float_mul_int (rgb ! k) 255)) -
           float_value (float_mul_int (rgb ! k) 255)\<bar> \<le> 1 / 2 \<and>
        \<bar>float_value (float_mul_int (rgb ! k) 255) - float_value (rgb ! k) * 255\<bar>
          \<le> float_value (rgb ! k) * 255 / 2 ^ 53"
    using b e np_round_nearest by blast
  with main len same show ?thesis by blast
qed

theorem rgb2hex_format_witness:
  "3 \<le> length [(847736400446211, - 57), (1, - 1), (1, 0), (5404319552844595, - 54 :: int)] \<and>
   list_all (\<lambda>x. is_float64 x \<and> 0 \<le> float_value x \<and> float_value x \<le> 1)
     [(847736400446211, - 57), (1, - 1), (1, 0)] \<and>
   np_round (float_mul_int (847736400446211, - 57) 255) = 2 \<and>
   np_round (float_mul_int (1, - 1) 255) = 128 \<and>
   np_round (float_mul_int (1, 0) 255) = 255 \<and>
   rgb2hex [(847736400446211, - 57), (1, - 1), (1, 0), (5404319552844595, - 54)] =
     Inr ''#0280ff''"
proof -
  let ?rgb = "[(847736400446211, - 57), (1, - 1), (1, 0), (5404319552844595, - 54 :: int)]"
  have l: "3 \<le> length ?rgb" by simp
  have v: "list_all (\<lambda>x. is_float64 x \<and> 0 \<le> float_value x \<and> float_value x \<le> 1)
     [(847736400446211, - 57), (1, - 1), (1, 0)]"
    by (simp add: is_float64_def float_value_def)
  then have r: "\<forall>k < 3. is_float64 (?rgb ! k) \<and> 0 \<le> float_value (?rgb ! k) \<and>
      float_value (?rgb ! k) \<le> 1"
    by (simp add: all_less_three)
  have n: "np_round (float_mul_int (847736400446211, - 57) 255) = 2"
    "np_round (float_mul_int (1, - 1) 255) = 128"
    "np_round (float_mul_int (1, 0) 255) = 255"
    by (simp_all add: np_round_def float_mul_int_def round_half_even_def Let_def
        bit_length.simps)
  have h: "spec_hex2 2 = ''02''" "spec_hex2 128 = ''80''" "spec_hex2 255 = ''ff''"
    by (simp_all add: spec_hex2_def hexchar_def)
  have "rgb2hex ?rgb = Inr ''#0280ff''"
    using rgb2hex_format[OF l r, THEN conjunct1] by (simp add: n h)
  with l v n show ?thesis by simp
qed

end
